theory Spec2Isabelle
  imports Complex_Main "HOL-Library.Sublist" "HOL-Library.Multiset"
begin

section \<open>JavaScript numbers\<close>

text \<open>
  The solver of \<^verbatim>\<open>src/utils/gameLogic.ts\<close> computes on JavaScript numbers. They are
  modelled as exact rationals extended by the three special values of IEEE arithmetic,
  so that a division by zero is visible in the model as \<open>PInf\<close>, \<open>NInf\<close> or \<open>NaN\<close>
  instead of being hidden behind HOL's total division. Rounding, overflow and the sign
  of zero are not modelled.
\<close>

datatype jsnum = Fin rat | PInf | NInf | NaN

fun is_finite :: "jsnum \<Rightarrow> bool" where
  "is_finite (Fin x) = True"
| "is_finite _ = False"

fun js_neg :: "jsnum \<Rightarrow> jsnum" where
  "js_neg (Fin x) = Fin (- x)"
| "js_neg PInf = NInf"
| "js_neg NInf = PInf"
| "js_neg NaN = NaN"

fun js_add :: "jsnum \<Rightarrow> jsnum \<Rightarrow> jsnum" where
  "js_add (Fin x) (Fin y) = Fin (x + y)"
| "js_add NaN _ = NaN"
| "js_add _ NaN = NaN"
| "js_add PInf NInf = NaN"
| "js_add NInf PInf = NaN"
| "js_add PInf _ = PInf"
| "js_add _ PInf = PInf"
| "js_add NInf _ = NInf"
| "js_add _ NInf = NInf"

definition js_sub :: "jsnum \<Rightarrow> jsnum \<Rightarrow> jsnum" where
  "js_sub x y = js_add x (js_neg y)"

text \<open>The sign of a number: \<open>1\<close>, \<open>-1\<close>, or \<open>0\<close> for zero and for \<open>NaN\<close>.\<close>

fun js_sign :: "jsnum \<Rightarrow> int" where
  "js_sign (Fin x) = (if 0 < x then 1 else if x < 0 then - 1 else 0)"
| "js_sign PInf = 1"
| "js_sign NInf = - 1"
| "js_sign NaN = 0"

definition inf_of_sign :: "int \<Rightarrow> jsnum" where
  "inf_of_sign s = (if 0 < s then PInf else if s < 0 then NInf else NaN)"

fun js_mul :: "jsnum \<Rightarrow> jsnum \<Rightarrow> jsnum" where
  "js_mul (Fin x) (Fin y) = Fin (x * y)"
| "js_mul NaN _ = NaN"
| "js_mul _ NaN = NaN"
| "js_mul x y = inf_of_sign (js_sign x * js_sign y)"

fun js_div :: "jsnum \<Rightarrow> jsnum \<Rightarrow> jsnum" where
  "js_div (Fin x) (Fin y) = (if y = 0 then inf_of_sign (js_sign (Fin x)) else Fin (x / y))"
| "js_div NaN _ = NaN"
| "js_div _ NaN = NaN"
| "js_div (Fin x) _ = Fin 0"
| "js_div x (Fin y) = inf_of_sign (js_sign x * (if y < 0 then - 1 else 1))"
| "js_div _ _ = NaN"

fun js_abs :: "jsnum \<Rightarrow> jsnum" where
  "js_abs (Fin x) = Fin \<bar>x\<bar>"
| "js_abs PInf = PInf"
| "js_abs NInf = PInf"
| "js_abs NaN = NaN"

fun js_lt :: "jsnum \<Rightarrow> jsnum \<Rightarrow> bool" where
  "js_lt (Fin x) (Fin y) = (x < y)"
| "js_lt NaN _ = False"
| "js_lt _ NaN = False"
| "js_lt NInf PInf = True"
| "js_lt NInf (Fin y) = True"
| "js_lt (Fin x) PInf = True"
| "js_lt _ _ = False"

subsection \<open>Number to string\<close>

text \<open>
  Strings are lists of UTF-16 code units, as JavaScript counts them; every unit the
  solver produces is below 256 and is one \<^typ>\<open>char\<close>. The multiplication sign is the
  unit \<open>0xD7\<close>, the division sign the unit \<open>0xF7\<close>.
\<close>

definition times_sign :: char where
  "times_sign = CHR 0xD7"

definition div_sign :: char where
  "div_sign = CHR 0xF7"

definition digit_char :: "nat \<Rightarrow> char" where
  "digit_char d = ''0123456789'' ! d"

fun decimal :: "nat \<Rightarrow> string" where
  "decimal n = (if n < 10 then [digit_char n] else decimal (n div 10) @ [digit_char (n mod 10)])"

declare decimal.simps [simp del]

text \<open>The first \<open>k\<close> decimal digits of a fraction \<open>0 \<le> r < 1\<close>, without trailing zeros.\<close>

fun frac_digits :: "nat \<Rightarrow> rat \<Rightarrow> string" where
  "frac_digits 0 r = []"
| "frac_digits (Suc k) r =
     (if r = 0 then []
      else digit_char (nat \<lfloor>r * 10\<rfloor>) # frac_digits k (r * 10 - of_int \<lfloor>r * 10\<rfloor>))"

text \<open>
  \<^verbatim>\<open>Number.prototype.toString\<close>. It is exact on integers and on the special values,
  which is all the solver renders when its input numbers are integers. A fraction is
  printed with at most 16 digits after the point, which only approximates the
  shortest round-trip digits JavaScript prints for a double.
\<close>

fun toString :: "jsnum \<Rightarrow> string" where
  "toString (Fin x) =
     (let a = \<bar>x\<bar>; n = nat \<lfloor>a\<rfloor>; f = a - of_int \<lfloor>a\<rfloor>
      in (if x < 0 then ''-'' else '''') @ decimal n @
         (if f = 0 then '''' else ''.'' @ frac_digits 16 f))"
| "toString PInf = ''Infinity''"
| "toString NInf = ''-Infinity''"
| "toString NaN = ''NaN''"

section \<open>The expression-tree search engine\<close>

text \<open>
  \<^verbatim>\<open>interface ExprNode { val; str; opLevel; left?; right?; opStr? }\<close>:
  the three optional fields are \<open>None\<close> where the source leaves them undefined.
\<close>

datatype ExprNode = ExprNode
  (val: jsnum) (str: string) (opLevel: nat)
  (left: "ExprNode option") (right: "ExprNode option") (opStr: "string option")

record operation =
  op :: string
  func :: "jsnum \<Rightarrow> jsnum \<Rightarrow> jsnum"
  level :: nat

record SolverResult =
  solvable :: bool
  solution :: "string option"
  firstStepHint :: "string option"

definition EPSILON :: jsnum where
  "EPSILON = Fin (1 / 10000)"

definition ops :: "operation list" where
  "ops = [\<lparr>op = ''+'', func = js_add, level = 1\<rparr>,
          \<lparr>op = ''-'', func = js_sub, level = 1\<rparr>,
          \<lparr>op = ''*'', func = js_mul, level = 2\<rparr>,
          \<lparr>op = ''/'', func = js_div, level = 2\<rparr>]"

text \<open>\<^verbatim>\<open>nodes.filter((_, idx) => p(idx))\<close>: the elements whose index satisfies \<open>p\<close>, in order.\<close>

definition filter_idx :: "(nat \<Rightarrow> bool) \<Rightarrow> 'a list \<Rightarrow> 'a list" where
  "filter_idx p xs = map ((!) xs) (filter p [0..<length xs])"

text \<open>
  A \<^verbatim>\<open>for\<close> loop whose body may \<^verbatim>\<open>return\<close> a result: the first iteration that yields
  \<open>Some\<close> result ends the loop; \<open>None\<close> is \<^verbatim>\<open>continue\<close> or falling through to the next one.
\<close>

fun first_some :: "('a \<Rightarrow> 'b option) \<Rightarrow> 'a list \<Rightarrow> 'b option" where
  "first_some f [] = None"
| "first_some f (x # xs) = (case f x of Some r \<Rightarrow> Some r | None \<Rightarrow> first_some f xs)"

lemma first_some_cong [fundef_cong]:
  "xs = ys \<Longrightarrow> (\<And>x. x \<in> set ys \<Longrightarrow> f x = g x) \<Longrightarrow> first_some f xs = first_some g ys"
  by (induction ys arbitrary: xs) (auto split: option.splits)

text \<open>
  Lines 83 to 106 of the loop body: the value, the text with its parentheses and the
  composite node built from \<open>a\<close>, \<open>b\<close> and the operation.
\<close>

definition leftStr :: "ExprNode \<Rightarrow> operation \<Rightarrow> string" where
  "leftStr a operation =
     (if opLevel a > 0 \<and> opLevel a < level operation then ''('' @ str a @ '')'' else str a)"

definition rightStr :: "ExprNode \<Rightarrow> operation \<Rightarrow> string" where
  "rightStr b operation =
     (if opLevel b > 0 \<and>
         (opLevel b < level operation \<or>
          (opLevel b = level operation \<and> (op operation = ''-'' \<or> op operation = ''/'')))
      then ''('' @ str b @ '')'' else str b)"

definition newNode :: "ExprNode \<Rightarrow> ExprNode \<Rightarrow> operation \<Rightarrow> ExprNode" where
  "newNode a b operation =
     (let newVal = func operation (val a) (val b);
          newStr = leftStr a operation @ '' '' @ op operation @ '' '' @ rightStr b operation
      in ExprNode newVal newStr (level operation) (Some a) (Some b) (Some (op operation)))"

lemma length_filter_idx:
  assumes "i < length xs" "j < length xs" "i \<noteq> j"
  shows "length (filter_idx (\<lambda>idx. idx \<noteq> i \<and> idx \<noteq> j) xs) = length xs - 2"
proof -
  have "{idx. idx \<noteq> i \<and> idx \<noteq> j} \<inter> set [0..<length xs] = {0..<length xs} - {i, j}"
    by auto
  moreover have "card ({0..<length xs} - {i, j}) = length xs - 2"
    using assms by (simp add: card_Diff_subset)
  ultimately show ?thesis
    by (simp add: filter_idx_def distinct_length_filter)
qed

text \<open>
  \<^verbatim>\<open>findSolution\<close>, lines 52 to 114. The three nested loops run over the indices
  \<open>i\<close> and \<open>j\<close> in ascending order and over \<open>ops\<close> in its order; \<^verbatim>\<open>continue\<close> is \<open>None\<close>.
\<close>

function findSolution :: "ExprNode list \<Rightarrow> ExprNode option" where
  "findSolution nodes =
     (if length nodes = 1 then
        (if js_lt (js_abs (js_sub (val (nodes ! 0)) (Fin 24))) EPSILON
         then Some (nodes ! 0) else None)
      else
        first_some (\<lambda>i.
          first_some (\<lambda>j.
            if i = j then None
            else
              let a = nodes ! i;
                  b = nodes ! j;
                  remaining = filter_idx (\<lambda>idx. idx \<noteq> i \<and> idx \<noteq> j) nodes
              in first_some (\<lambda>operation.
                   if op operation = ''/'' \<and> js_lt (js_abs (val b)) EPSILON then None
                   else findSolution (remaining @ [newNode a b operation]))
                 ops)
            [0..<length nodes])
          [0..<length nodes])"
  by pat_completeness auto
termination
proof (relation "measure length", goal_cases)
  case 1
  show ?case by simp
next
  case (2 nodes i j a b remaining operation)
  then have "i < length nodes" "j < length nodes" "i \<noteq> j"
    by auto
  then have "length remaining = length nodes - 2" "2 \<le> length nodes"
    using 2 by (auto simp: length_filter_idx)
  then show ?case
    by simp
qed

declare findSolution.simps [simp del]

text \<open>\<^verbatim>\<open>findFirstOperation\<close>, lines 123 to 137.\<close>

lemma size_left: "left node = Some l \<Longrightarrow> size l < size node"
  by (cases node) simp

lemma size_right: "right node = Some r \<Longrightarrow> size r < size node"
  by (cases node) simp

function findFirstOperation :: "ExprNode \<Rightarrow> string" where
  "findFirstOperation node =
     (case (left node, right node) of
        (Some l, Some r) \<Rightarrow>
          if left l = None \<and> left r = None then
            (let opSymbol = (case opStr node of
                               None \<Rightarrow> ''undefined''
                             | Some s \<Rightarrow> if s = ''*'' then [times_sign]
                                         else if s = ''/'' then [div_sign] else s)
             in toString (val l) @ '' '' @ opSymbol @ '' '' @ toString (val r))
          else
            (let leftResult = findFirstOperation l
             in if leftResult \<noteq> [] then leftResult else findFirstOperation r)
      | _ \<Rightarrow> [])"
  by pat_completeness auto
termination
  by (relation "measure size") (auto simp: size_left size_right)

declare findFirstOperation.simps [simp del]

text \<open>\<^verbatim>\<open>s.replace(/c/g, d)\<close> for a single character \<open>c\<close>.\<close>

definition replace_all :: "char \<Rightarrow> char \<Rightarrow> string \<Rightarrow> string" where
  "replace_all c d s = map (\<lambda>x. if x = c then d else x) s"

definition initialNodes :: "jsnum list \<Rightarrow> ExprNode list" where
  "initialNodes numbers = map (\<lambda>n. ExprNode n (toString n) 0 None None None) numbers"

definition prettySolution :: "ExprNode \<Rightarrow> string" where
  "prettySolution rootNode =
     replace_all (CHR ''/'') div_sign (replace_all (CHR ''*'') times_sign (str rootNode))"

definition solve24 :: "jsnum list \<Rightarrow> SolverResult" where
  "solve24 numbers =
     (case findSolution (initialNodes numbers) of
        None \<Rightarrow> \<lparr>solvable = False, solution = None, firstStepHint = None\<rparr>
      | Some rootNode \<Rightarrow>
          \<lparr>solvable = True,
           solution = Some (prettySolution rootNode),
           firstStepHint = Some (findFirstOperation rootNode)\<rparr>)"

section \<open>Analysis of the search\<close>

text \<open>
  Names for three expressions of \<^verbatim>\<open>findSolution\<close>: the test of the base case, the
  guard that skips a division, and the frontier passed to the recursive call.
\<close>

definition within24 :: "ExprNode \<Rightarrow> bool" where
  "within24 n = js_lt (js_abs (js_sub (val n) (Fin 24))) EPSILON"

definition skipped :: "operation \<Rightarrow> ExprNode \<Rightarrow> bool" where
  "skipped operation b = (op operation = ''/'' \<and> js_lt (js_abs (val b)) EPSILON)"

definition child_frontier :: "ExprNode list \<Rightarrow> nat \<Rightarrow> nat \<Rightarrow> operation \<Rightarrow> ExprNode list" where
  "child_frontier nodes i j operation =
     filter_idx (\<lambda>idx. idx \<noteq> i \<and> idx \<noteq> j) nodes @ [newNode (nodes ! i) (nodes ! j) operation]"

lemma first_some_SomeD:
  "first_some f xs = Some r \<Longrightarrow> \<exists>x\<in>set xs. f x = Some r"
  by (induction xs) (auto split: option.splits)

lemma first_some_None_iff:
  "first_some f xs = None \<longleftrightarrow> (\<forall>x\<in>set xs. f x = None)"
  by (induction xs) (auto split: option.splits)

lemma findSolution_single:
  "length nodes = 1 \<Longrightarrow>
   findSolution nodes = (if within24 (nodes ! 0) then Some (nodes ! 0) else None)"
  by (subst findSolution.simps) (simp add: within24_def)

lemma findSolution_loops:
  "length nodes \<noteq> 1 \<Longrightarrow>
   findSolution nodes =
     first_some (\<lambda>i. first_some (\<lambda>j. if i = j then None else
       first_some (\<lambda>operation. if skipped operation (nodes ! j) then None
                    else findSolution (child_frontier nodes i j operation)) ops)
       [0..<length nodes]) [0..<length nodes]"
  by (subst findSolution.simps) (simp add: Let_def skipped_def child_frontier_def cong: if_cong)

lemma findSolution_SomeD:
  assumes "findSolution nodes = Some r" "length nodes \<noteq> 1"
  shows "\<exists>i j operation. i < length nodes \<and> j < length nodes \<and> i \<noteq> j \<and>
           operation \<in> set ops \<and> \<not> skipped operation (nodes ! j) \<and>
           findSolution (child_frontier nodes i j operation) = Some r"
proof -
  from assms have "first_some (\<lambda>i. first_some (\<lambda>j. if i = j then None else
       first_some (\<lambda>operation. if skipped operation (nodes ! j) then None
                    else findSolution (child_frontier nodes i j operation)) ops)
       [0..<length nodes]) [0..<length nodes] = Some r"
    by (simp add: findSolution_loops)
  from first_some_SomeD[OF this] obtain i where i: "i < length nodes"
    and 1: "first_some (\<lambda>j. if i = j then None else
       first_some (\<lambda>operation. if skipped operation (nodes ! j) then None
                    else findSolution (child_frontier nodes i j operation)) ops)
       [0..<length nodes] = Some r"
    by auto
  from first_some_SomeD[OF 1] obtain j where j: "j < length nodes" "i \<noteq> j"
    and 2: "first_some (\<lambda>operation. if skipped operation (nodes ! j) then None
                    else findSolution (child_frontier nodes i j operation)) ops = Some r"
    by (auto split: if_splits)
  from first_some_SomeD[OF 2] obtain operation where "operation \<in> set ops"
     "\<not> skipped operation (nodes ! j)"
     "findSolution (child_frontier nodes i j operation) = Some r"
    by (auto split: if_splits)
  with i j show ?thesis by blast
qed

lemma length_child_frontier:
  "i < length nodes \<Longrightarrow> j < length nodes \<Longrightarrow> i \<noteq> j \<Longrightarrow>
   length (child_frontier nodes i j operation) = length nodes - 1"
  by (simp add: child_frontier_def length_filter_idx)

lemma findSolution_invariant:
  assumes step: "\<And>nodes i j operation. P nodes \<Longrightarrow> i < length nodes \<Longrightarrow> j < length nodes \<Longrightarrow>
       i \<noteq> j \<Longrightarrow> operation \<in> set ops \<Longrightarrow> \<not> skipped operation (nodes ! j) \<Longrightarrow>
       P (child_frontier nodes i j operation)"
    and "P nodes" and "findSolution nodes = Some r"
  shows "P [r] \<and> within24 r"
  using assms(2,3)
proof (induction "length nodes" arbitrary: nodes rule: less_induct)
  case less
  show ?case
  proof (cases "length nodes = 1")
    case True
    then obtain x where x: "nodes = [x]"
      by (cases nodes) auto
    with less.prems show ?thesis
      by (auto simp: findSolution_single split: if_splits)
  next
    case False
    from findSolution_SomeD[OF less.prems(2) False]
    obtain i j operation where h: "i < length nodes" "j < length nodes" "i \<noteq> j"
      "operation \<in> set ops" "\<not> skipped operation (nodes ! j)"
      "findSolution (child_frontier nodes i j operation) = Some r"
      by blast
    have "length (child_frontier nodes i j operation) < length nodes"
      using h by (simp add: length_child_frontier)
    moreover have "P (child_frontier nodes i j operation)"
      using step less.prems(1) h by blast
    ultimately show ?thesis
      using less.hyps h(6) by blast
  qed
qed


subsection \<open>Well-formed nodes\<close>

text \<open>
  The invariant of the data model: a node is a leaf (no children, no operator, level 0,
  its text the rendering of its value) or a composite built by \<open>newNode\<close> from two
  well-formed children and an operation of the table. A composite is a node with both
  children.
\<close>

fun wf_node :: "ExprNode \<Rightarrow> bool" where
  "wf_node (ExprNode v s lv None None None) = (lv = 0 \<and> s = toString v)"
| "wf_node (ExprNode v s lv (Some l) (Some r) (Some sy)) =
     (wf_node l \<and> wf_node r \<and>
      (\<exists>operation\<in>set ops. ExprNode v s lv (Some l) (Some r) (Some sy) = newNode l r operation))"
| "wf_node _ = False"

definition is_composite :: "ExprNode \<Rightarrow> bool" where
  "is_composite n = (left n \<noteq> None \<and> right n \<noteq> None)"

definition parens :: "string \<Rightarrow> string" where
  "parens s = ''('' @ s @ '')''"


text \<open>The leaf node the solver builds for an input number.\<close>

definition leaf :: "jsnum \<Rightarrow> ExprNode" where
  "leaf n = ExprNode n (toString n) 0 None None None"


subsection \<open>The order of the search\<close>

text \<open>
  The order of the specification: every ordered pair \<open>(i, j)\<close> of distinct positions,
  \<open>i\<close> ascending, then \<open>j\<close> ascending, then the operations in the order of the table,
  a division by a near-zero value left out. \<open>branches\<close> lists the frontiers of the
  recursive calls in that order, \<open>terminals\<close> the frontiers of size one reached below
  them, depth first and left to right, and \<open>depth\<close> is the depth of the recursion when
  nothing is found.
\<close>

definition branches :: "ExprNode list \<Rightarrow> ExprNode list list" where
  "branches nodes =
     [child_frontier nodes i j operation.
        i \<leftarrow> [0..<length nodes], j \<leftarrow> [0..<length nodes], i \<noteq> j,
        operation \<leftarrow> ops, \<not> skipped operation (nodes ! j)]"

lemma level_ops: "operation \<in> set ops \<Longrightarrow> level operation = 1 \<or> level operation = 2"
  by (auto simp: ops_def)

lemma wf_node_newNode:
  "wf_node a \<Longrightarrow> wf_node b \<Longrightarrow> operation \<in> set ops \<Longrightarrow> wf_node (newNode a b operation)"
  by (auto simp: newNode_def Let_def)

lemma wf_composite_level: "wf_node n \<Longrightarrow> is_composite n \<longleftrightarrow> 0 < opLevel n"
  by (induction n rule: wf_node.induct)
     (auto simp: is_composite_def newNode_def Let_def dest: level_ops)

lemma first_some_concat_map:
  "first_some f (concat (map g xs)) = first_some (\<lambda>x. first_some f (g x)) xs"
proof (induction xs)
  case Nil
  show ?case by simp
next
  case (Cons x xs)
  have app: "first_some f (ys @ zs) =
      (case first_some f ys of Some r \<Rightarrow> Some r | None \<Rightarrow> first_some f zs)" for ys zs
    by (induction ys) (auto split: option.splits)
  show ?case
    by (simp add: app Cons.IH split: option.splits)
qed

lemma findSolution_branches:
  "length nodes \<noteq> 1 \<Longrightarrow> findSolution nodes = first_some findSolution (branches nodes)"
proof -
  have single: "first_some f [x] = f x"
    for f :: "ExprNode list \<Rightarrow> ExprNode option" and x
    by (cases "f x") simp_all
  have sel: "first_some f (if c then xs else []) = (if c then first_some f xs else None)"
    for f :: "ExprNode list \<Rightarrow> ExprNode option" and c xs
    by simp
  have sel1: "first_some f (if c then [x] else []) = (if c then f x else None)"
    for f :: "ExprNode list \<Rightarrow> ExprNode option" and c x
    by (cases "f x") auto
  have flip: "(if \<not> c then a else b) = (if c then b else a)"
    for c and a b :: "ExprNode option"
    by simp
  assume "length nodes \<noteq> 1"
  then have "findSolution nodes =
     first_some (\<lambda>i. first_some (\<lambda>j. if i = j then None else
       first_some (\<lambda>operation. if skipped operation (nodes ! j) then None
                    else findSolution (child_frontier nodes i j operation)) ops)
       [0..<length nodes]) [0..<length nodes]"
    by (rule findSolution_loops)
  also have "\<dots> = first_some findSolution (branches nodes)"
    unfolding branches_def first_some_concat_map sel sel1
    by (intro first_some_cong refl) (auto simp: single flip simp del: first_some.simps cong: if_cong)
  finally show ?thesis .
qed

lemma branches_length:
  assumes "fr \<in> set (branches nodes)"
  shows "length fr + 1 = length nodes"
proof -
  from assms obtain i j operation where "i < length nodes" "j < length nodes" "i \<noteq> j"
    "fr = child_frontier nodes i j operation"
    by (auto simp: branches_def split: if_splits)
  then show ?thesis
    by (simp add: length_child_frontier)
qed


lemma branches_shorter: "fr \<in> set (branches nodes) \<Longrightarrow> length fr < length nodes"
  using branches_length by fastforce

function terminals :: "ExprNode list \<Rightarrow> ExprNode list" where
  "terminals nodes =
     (if length nodes = 1 then [nodes ! 0] else concat (map terminals (branches nodes)))"
  by pat_completeness auto
termination
  by (relation "measure length") (auto simp: branches_shorter)

declare terminals.simps [simp del]

function depth :: "ExprNode list \<Rightarrow> nat" where
  "depth nodes =
     (if length nodes = 1 then 0
      else fold max (map (\<lambda>fr. Suc (depth fr)) (branches nodes)) 0)"
  by pat_completeness auto
termination
  by (relation "measure length") (auto simp: branches_shorter)

declare depth.simps [simp del]

lemma find_concat: "List.find P (concat xss) = first_some (List.find P) xss"
proof (induction xss)
  case Nil
  show ?case by simp
next
  case (Cons xs xss)
  have app: "List.find P (ys @ zs) =
      (case List.find P ys of Some r \<Rightarrow> Some r | None \<Rightarrow> List.find P zs)" for ys zs
    by (induction ys) auto
  show ?case
    by (simp add: app Cons.IH split: option.splits)
qed

lemma first_some_map: "first_some f (map g xs) = first_some (\<lambda>x. f (g x)) xs"
  by (induction xs) (auto split: option.splits)

lemma findSolution_terminals: "findSolution nodes = List.find within24 (terminals nodes)"
proof (induction "length nodes" arbitrary: nodes rule: less_induct)
  case less
  show ?case
  proof (cases "length nodes = 1")
    case True
    then show ?thesis
      by (simp add: findSolution_single terminals.simps)
  next
    case False
    have "findSolution nodes = first_some findSolution (branches nodes)"
      using False by (rule findSolution_branches)
    also have "\<dots> = first_some (\<lambda>fr. List.find within24 (terminals fr)) (branches nodes)"
      by (intro first_some_cong refl less.hyps branches_shorter)
    also have "\<dots> = List.find within24 (terminals nodes)"
      using False by (simp add: terminals.simps[of nodes] find_concat first_some_map)
    finally show ?thesis .
  qed
qed

lemma fold_max_le: "(\<And>x. x \<in> set xs \<Longrightarrow> x \<le> b) \<Longrightarrow> a \<le> b \<Longrightarrow> fold max xs a \<le> (b::nat)"
  by (induction xs arbitrary: a) auto

lemma depth_le: "depth nodes \<le> length nodes - 1"
proof (induction "length nodes" arbitrary: nodes rule: less_induct)
  case less
  show ?case
  proof (cases "length nodes = 1")
    case True
    then show ?thesis by (simp add: depth.simps)
  next
    case False
    have "Suc (depth fr) \<le> length nodes - 1" if "fr \<in> set (branches nodes)" for fr
      using less.hyps[OF branches_shorter[OF that]] branches_length[OF that] False by simp
    then have "fold max (map (\<lambda>fr. Suc (depth fr)) (branches nodes)) 0 \<le> length nodes - 1"
      by (intro fold_max_le) auto
    then show ?thesis
      using False by (simp add: depth.simps[of nodes])
  qed
qed

lemma length_concat_le:
  "(\<And>x. x \<in> set xs \<Longrightarrow> length (f x) \<le> k) \<Longrightarrow> length (concat (map f xs)) \<le> length xs * k"
  by (induction xs) (auto simp: add_mono)

lemma length_branches: "length (branches nodes) \<le> length nodes * (length nodes - 1) * 4"
proof -
  let ?n = "length nodes"
  let ?X = "\<lambda>i j. concat (map (\<lambda>operation. if \<not> skipped operation (nodes ! j)
              then [child_frontier nodes i j operation] else []) ops)"
  have inner: "length (?X i j) \<le> 4" for i j
    by (simp add: ops_def)
  have per_i: "length (concat (map (\<lambda>j. if i \<noteq> j then ?X i j else []) [0..<?n])) \<le> (?n - 1) * 4"
    if "i < ?n" for i
  proof -
    have "length (concat (map (\<lambda>j. if i \<noteq> j then ?X i j else []) [0..<?n]))
        = (\<Sum>j = 0..<?n. length (if i \<noteq> j then ?X i j else []))"
      by (simp add: length_concat comp_def interv_sum_list_conv_sum_set_nat)
    also have "\<dots> = (\<Sum>j \<in> {0..<?n} - {i}. length (?X i j))"
      by (rule sum.mono_neutral_cong_right) auto
    also have "\<dots> \<le> (\<Sum>j \<in> {0..<?n} - {i}. 4)"
      by (intro sum_mono inner)
    also have "\<dots> = (?n - 1) * 4"
      using that by simp
    finally show ?thesis .
  qed
  have "length (branches nodes) \<le> length [0..<?n] * ((?n - 1) * 4)"
    unfolding branches_def
  proof (rule length_concat_le)
    fix i assume "i \<in> set [0..<?n]"
    then have "i < ?n" by simp
    from per_i[OF this]
    show "length (concat (map (\<lambda>j. if i \<noteq> j then ?X i j else []) [0..<?n])) \<le> (?n - 1) * 4" .
  qed
  then show ?thesis
    by (simp add: mult.assoc)
qed


subsection \<open>The frontier as a multiset; leaves and subtrees\<close>

text \<open>
  \<open>leaves\<close> lists the values of the leaves of a tree from left to right, \<open>subnodes\<close> the
  nodes of a tree in the left-then-right depth-first order (the node, its left subtree,
  its right subtree).
\<close>

lemma mset_filter_idx:
  assumes "i < length xs" "j < length xs" "i \<noteq> j"
  shows "mset (filter_idx (\<lambda>idx. idx \<noteq> i \<and> idx \<noteq> j) xs) + {#xs ! i, xs ! j#} = mset xs"
proof -
  let ?p = "\<lambda>idx. idx \<noteq> i \<and> idx \<noteq> j"
  let ?n = "length xs"
  have "mset (filter (\<lambda>idx. \<not> ?p idx) [0..<?n]) = {#i, j#}"
  proof -
    have "mset (filter (\<lambda>idx. \<not> ?p idx) [0..<?n]) = mset_set {k \<in> {0..<?n}. \<not> ?p k}"
      by (simp add: mset_upt filter_mset_mset_set del: mset_upt [symmetric])
    also have "{k \<in> {0..<?n}. \<not> ?p k} = {i, j}"
      using assms by auto
    also have "mset_set {i, j} = {#i, j#}"
      using assms by simp
    finally show ?thesis .
  qed
  then have "image_mset ((!) xs) (mset (filter (\<lambda>idx. \<not> ?p idx) [0..<?n])) = {#xs ! i, xs ! j#}"
    by simp
  moreover have "mset (filter ?p [0..<?n]) + mset (filter (\<lambda>idx. \<not> ?p idx) [0..<?n]) = mset [0..<?n]"
    by (simp only: mset_filter multiset_partition [symmetric])
  then have "image_mset ((!) xs) (mset (filter ?p [0..<?n]))
           + image_mset ((!) xs) (mset (filter (\<lambda>idx. \<not> ?p idx) [0..<?n]))
           = image_mset ((!) xs) (mset [0..<?n])"
    by (metis image_mset_union)
  moreover have "image_mset ((!) xs) (mset [0..<?n]) = mset xs"
    by (metis map_nth mset_map)
  ultimately show ?thesis
    by (simp add: filter_idx_def ac_simps)
qed

lemma mset_child_frontier:
  assumes "i < length nodes" "j < length nodes" "i \<noteq> j"
  shows "mset (child_frontier nodes i j operation) + {#nodes ! i, nodes ! j#}
         = add_mset (newNode (nodes ! i) (nodes ! j) operation) (mset nodes)"
  using mset_filter_idx [OF assms] by (simp add: child_frontier_def ac_simps)

lemma set_child_frontier:
  assumes "i < length nodes" "j < length nodes" "i \<noteq> j"
  shows "set (child_frontier nodes i j operation)
         \<subseteq> insert (newNode (nodes ! i) (nodes ! j) operation) (set nodes)"
  by (auto simp: child_frontier_def filter_idx_def)

fun leaves :: "ExprNode \<Rightarrow> jsnum list" where
  "leaves (ExprNode v s lv (Some l) (Some r) sy) = leaves l @ leaves r"
| "leaves (ExprNode v s lv _ _ _) = [v]"

lemma leaves_newNode [simp]: "leaves (newNode a b operation) = leaves a @ leaves b"
  by (simp add: newNode_def Let_def)

lemma leaves_leaf [simp]: "leaves (leaf v) = [v]"
  by (simp add: leaf_def)


fun subnodes :: "ExprNode \<Rightarrow> ExprNode list" where
  "subnodes (ExprNode v s lv l r sy) =
     ExprNode v s lv l r sy #
     (case l of None \<Rightarrow> [] | Some a \<Rightarrow> subnodes a) @
     (case r of None \<Rightarrow> [] | Some b \<Rightarrow> subnodes b)"

lemma subnodes_newNode [simp]:
  "subnodes (newNode a b operation) = newNode a b operation # subnodes a @ subnodes b"
  by (simp add: newNode_def Let_def)

lemma subnodes_leaf [simp]: "subnodes (leaf v) = [leaf v]"
  by (simp add: leaf_def)

lemma initialNodes_leaf: "initialNodes numbers = map leaf numbers"
  by (simp add: initialNodes_def leaf_def)

lemma val_newNode [simp]: "val (newNode a b operation) = func operation (val a) (val b)"
  by (simp add: newNode_def Let_def)

lemma branches_cases:
  assumes "fr \<in> set (branches nodes)"
  obtains i j operation where "i < length nodes" "j < length nodes" "i \<noteq> j"
    "operation \<in> set ops" "\<not> skipped operation (nodes ! j)"
    "fr = child_frontier nodes i j operation"
  using assms by (auto simp: branches_def split: if_splits)

lemma child_frontier_all:
  assumes "\<forall>n \<in> set nodes. Q n" "i < length nodes" "j < length nodes" "i \<noteq> j"
    "Q (nodes ! i) \<Longrightarrow> Q (nodes ! j) \<Longrightarrow> Q (newNode (nodes ! i) (nodes ! j) operation)"
  shows "\<forall>n \<in> set (child_frontier nodes i j operation). Q n"
  using assms set_child_frontier[OF assms(2,3,4), of operation] by (auto simp: subset_iff)

lemma wf_node_induct [consumes 1, case_names leaf composite]:
  assumes "wf_node n"
    and "\<And>v. P (leaf v)"
    and "\<And>a b operation. wf_node a \<Longrightarrow> wf_node b \<Longrightarrow> P a \<Longrightarrow> P b \<Longrightarrow>
           operation \<in> set ops \<Longrightarrow> P (newNode a b operation)"
  shows "P n"
  using assms(1)
proof (induction n rule: wf_node.induct)
  case (1 v s lv)
  then show ?case using assms(2)[of v] by (simp add: leaf_def)
next
  case (2 v s lv l r sy)
  then show ?case using assms(3)[of l r] by auto
qed simp_all

lemma wf_node_leaf [simp]: "wf_node (leaf v)"
  by (simp add: leaf_def)

definition digit_chars :: "char set" where
  "digit_chars = set ''0123456789''"

definition number_chars :: "char set" where
  "number_chars = digit_chars \<union> {CHR ''.'', CHR ''-''}"

definition plain_chars :: "char set" where
  "plain_chars = number_chars \<union> set ''+*/() '' \<union> {times_sign, div_sign}"

lemma digit_char_plain: "d < 10 \<Longrightarrow> digit_char d \<in> digit_chars"
  unfolding digit_char_def digit_chars_def by (rule nth_mem) simp

lemma decimal_digits: "set (decimal n) \<subseteq> digit_chars"
proof (induction n rule: decimal.induct)
  case (1 n)
  show ?case
  proof (cases "n < 10")
    case True
    then show ?thesis
      using digit_char_plain[of n] by (subst decimal.simps) simp
  next
    case False
    then show ?thesis
      using 1 digit_char_plain[of "n mod 10"] by (subst decimal.simps) simp
  qed
qed

lemma frac_digits_digits:
  "0 \<le> r \<Longrightarrow> r < 1 \<Longrightarrow> set (frac_digits k r) \<subseteq> digit_chars"
proof (induction k arbitrary: r)
  case 0
  show ?case by simp
next
  case (Suc k)
  let ?d = "\<lfloor>r * 10\<rfloor>"
  have "0 \<le> r * 10" "r * 10 < 10"
    using Suc.prems by simp_all
  then have d: "0 \<le> ?d" "?d < 10"
    by (simp_all add: floor_less_iff)
  then have "nat ?d < 10"
    by linarith
  then have 1: "digit_char (nat ?d) \<in> digit_chars"
    by (rule digit_char_plain)
  have "0 \<le> r * 10 - of_int ?d" "r * 10 - of_int ?d < 1"
    by linarith+
  from Suc.IH[OF this] have "set (frac_digits k (r * 10 - of_int ?d)) \<subseteq> digit_chars" .
  with 1 show ?case
    by simp
qed

lemma toString_finite_chars:
  assumes "is_finite x"
  shows "set (toString x) \<subseteq> number_chars"
proof -
  obtain q where q: "x = Fin q"
    using assms by (cases x) auto
  let ?a = "\<bar>q\<bar>"
  have "0 \<le> ?a - of_int \<lfloor>?a\<rfloor>" "?a - of_int \<lfloor>?a\<rfloor> < 1"
    by linarith+
  then have f: "set (frac_digits 16 (?a - of_int \<lfloor>?a\<rfloor>)) \<subseteq> digit_chars"
    by (rule frac_digits_digits)
  have d: "set (decimal (nat \<lfloor>?a\<rfloor>)) \<subseteq> digit_chars"
    by (rule decimal_digits)
  show ?thesis
    unfolding q number_chars_def using f d by (auto simp: Let_def)
qed

definition frontier_leaves :: "ExprNode list \<Rightarrow> jsnum multiset" where
  "frontier_leaves nodes = (\<Sum>n \<in># mset nodes. mset (leaves n))"

lemma frontier_leaves_child:
  assumes "i < length nodes" "j < length nodes" "i \<noteq> j"
  shows "frontier_leaves (child_frontier nodes i j operation) = frontier_leaves nodes"
proof -
  let ?f = "\<lambda>n. mset (leaves n)"
  have "(\<Sum>n \<in># mset (child_frontier nodes i j operation) + {#nodes ! i, nodes ! j#}. ?f n)
      = (\<Sum>n \<in># add_mset (newNode (nodes ! i) (nodes ! j) operation) (mset nodes). ?f n)"
    by (simp only: mset_child_frontier[OF assms])
  then show ?thesis
    by (simp add: frontier_leaves_def ac_simps)
qed

lemma frontier_leaves_initial: "frontier_leaves (initialNodes numbers) = mset numbers"
  by (induction numbers) (simp_all add: frontier_leaves_def initialNodes_leaf)

lemma wf_initial: "\<forall>n \<in> set (initialNodes numbers). wf_node n"
  by (simp add: initialNodes_leaf)

lemma findSolution_wf:
  assumes "\<forall>n \<in> set nodes. wf_node n" "findSolution nodes = Some r"
  shows "wf_node r \<and> frontier_leaves [r] = frontier_leaves nodes \<and> within24 r"
proof -
  let ?P = "\<lambda>fr. (\<forall>n \<in> set fr. wf_node n) \<and> frontier_leaves fr = frontier_leaves nodes"
  have "?P [r] \<and> within24 r"
  proof (rule findSolution_invariant[where P = ?P])
    show "?P nodes" using assms(1) by simp
    show "findSolution nodes = Some r" by fact
  next
    fix fr i j operation
    assume h: "?P fr" "i < length fr" "j < length fr" "i \<noteq> j" "operation \<in> set ops"
    then have "\<forall>n \<in> set (child_frontier fr i j operation). wf_node n"
      by (intro child_frontier_all) (auto intro: wf_node_newNode)
    then show "?P (child_frontier fr i j operation)"
      using h by (simp add: frontier_leaves_child)
  qed
  then show ?thesis by simp
qed

lemma op_ops: "operation \<in> set ops \<Longrightarrow> op operation \<in> {''+'', ''-'', ''*'', ''/''}"
  by (auto simp: ops_def)

lemma str_newNode:
  "str (newNode a b operation) =
     leftStr a operation @ '' '' @ op operation @ '' '' @ rightStr b operation"
  by (simp add: newNode_def Let_def)

lemma str_leaf [simp]: "str (leaf v) = toString v"
  by (simp add: leaf_def)

lemma number_chars_plain: "number_chars \<subseteq> plain_chars"
  by (auto simp: plain_chars_def)

lemma symbols_plain:
  "set ''+'' \<subseteq> plain_chars" "set ''-'' \<subseteq> plain_chars" "set ''*'' \<subseteq> plain_chars"
  "set ''/'' \<subseteq> plain_chars" "set ''('' \<subseteq> plain_chars" "set '')'' \<subseteq> plain_chars"
  "set '' '' \<subseteq> plain_chars" "times_sign \<in> plain_chars" "div_sign \<in> plain_chars"
  by (simp_all add: plain_chars_def number_chars_def)

lemma leaves_chars:
  assumes "wf_node n" "\<forall>v \<in> set (leaves n). is_finite v"
  shows "set (str n) \<subseteq> plain_chars"
  using assms
proof (induction rule: wf_node_induct)
  case (leaf v)
  then have "is_finite v"
    by simp
  then have "set (toString v) \<subseteq> number_chars"
    by (rule toString_finite_chars)
  then have "set (toString v) \<subseteq> plain_chars"
    using number_chars_plain by (rule order_trans)
  then show ?case
    by simp
next
  case (composite a b operation)
  then have a: "set (str a) \<subseteq> plain_chars" and b: "set (str b) \<subseteq> plain_chars"
    by simp_all
  have l: "set (leftStr a operation) \<subseteq> plain_chars"
    using a symbols_plain by (simp add: leftStr_def)
  have r: "set (rightStr b operation) \<subseteq> plain_chars"
    using b symbols_plain by (simp add: rightStr_def)
  have o: "set (op operation) \<subseteq> plain_chars"
    using op_ops[OF composite.hyps(3)] symbols_plain by auto
  show ?case
    using l r o symbols_plain(7) by (simp add: str_newNode)
qed

lemma prettySolution_chars: "set (str n) \<subseteq> plain_chars \<Longrightarrow> set (prettySolution n) \<subseteq> plain_chars"
  using symbols_plain(8,9) by (auto simp: prettySolution_def replace_all_def)

subsection \<open>The hint\<close>

text \<open>
  The hint as the specification words it: the first node, in the left-then-right
  depth-first order, that is a composite of two leaves, rendered as the left value, the
  displayed operator symbol and the right value.
\<close>

definition display_symbol :: "string \<Rightarrow> string" where
  "display_symbol s = (if s = ''*'' then [times_sign] else if s = ''/'' then [div_sign] else s)"

definition leaf_pair :: "ExprNode \<Rightarrow> bool" where
  "leaf_pair n =
     (case (left n, right n) of
        (Some l, Some r) \<Rightarrow> \<not> is_composite l \<and> \<not> is_composite r
      | _ \<Rightarrow> False)"

definition hint_text :: "ExprNode \<Rightarrow> string" where
  "hint_text n =
     (case (left n, right n, opStr n) of
        (Some l, Some r, Some s) \<Rightarrow>
          toString (val l) @ '' '' @ display_symbol s @ '' '' @ toString (val r)
      | _ \<Rightarrow> [])"

definition spec_hint :: "ExprNode \<Rightarrow> string" where
  "spec_hint t = (case List.find leaf_pair (subnodes t) of None \<Rightarrow> [] | Some m \<Rightarrow> hint_text m)"

lemma findFirstOperation_leaf [simp]: "findFirstOperation (leaf v) = []"
  by (subst findFirstOperation.simps) (simp add: leaf_def)

lemma findFirstOperation_newNode:
  "findFirstOperation (newNode a b operation) =
     (if left a = None \<and> left b = None
      then toString (val a) @ '' '' @ display_symbol (op operation) @ '' '' @ toString (val b)
      else if findFirstOperation a \<noteq> [] then findFirstOperation a else findFirstOperation b)"
  by (subst findFirstOperation.simps) (simp add: newNode_def Let_def display_symbol_def)

lemma wf_left_right: "wf_node n \<Longrightarrow> (left n = None) = (right n = None)"
  by (induction rule: wf_node_induct) (simp_all add: leaf_def newNode_def Let_def)

lemma wf_not_composite: "wf_node n \<Longrightarrow> \<not> is_composite n \<longleftrightarrow> left n = None"
  using wf_left_right by (auto simp: is_composite_def)

lemma leaf_pair_newNode:
  "wf_node a \<Longrightarrow> wf_node b \<Longrightarrow>
   leaf_pair (newNode a b operation) \<longleftrightarrow> left a = None \<and> left b = None"
  by (simp add: leaf_pair_def newNode_def Let_def wf_not_composite)

lemma leaf_pair_leaf [simp]: "\<not> leaf_pair (leaf v)"
  by (simp add: leaf_pair_def leaf_def)

lemma hint_text_newNode:
  "hint_text (newNode a b operation) =
     toString (val a) @ '' '' @ display_symbol (op operation) @ '' '' @ toString (val b)"
  by (simp add: hint_text_def newNode_def Let_def)

lemma wf_leaf_or_composite:
  assumes "wf_node n"
  shows "(left n = None \<and> n = leaf (val n)) \<or> (left n \<noteq> None \<and> find leaf_pair (subnodes n) \<noteq> None)"
  using assms
proof (induction rule: wf_node_induct)
  case (leaf v)
  then show ?case by (simp add: leaf_def)
next
  case (composite a b operation)
  have l: "left (newNode a b operation) \<noteq> None"
    by (simp add: newNode_def Let_def)
  show ?case
  proof (cases "left a = None \<and> left b = None")
    case True
    then show ?thesis
      using l composite.hyps by (simp add: leaf_pair_newNode)
  next
    case False
    then have "find leaf_pair (subnodes a) \<noteq> None \<or> find leaf_pair (subnodes b) \<noteq> None"
      using composite.IH by auto
    then show ?thesis
      using l by (auto simp: find_None_iff)
  qed
qed

lemma find_append:
  "List.find P (xs @ ys) = (case List.find P xs of None \<Rightarrow> List.find P ys | Some x \<Rightarrow> Some x)"
  by (induction xs) auto

lemma hint_text_nonempty: "leaf_pair m \<Longrightarrow> opStr m \<noteq> None \<Longrightarrow> hint_text m \<noteq> []"
  by (auto simp: hint_text_def leaf_pair_def split: option.splits)

lemma findFirstOperation_spec:
  assumes "wf_node n"
  shows "findFirstOperation n = spec_hint n \<and> (findFirstOperation n = [] \<longleftrightarrow> left n = None)"
  using assms
proof (induction rule: wf_node_induct)
  case (leaf v)
  show ?case by (simp add: spec_hint_def) (simp add: leaf_def)
next
  case (composite a b operation)
  let ?n = "newNode a b operation"
  have l: "left ?n \<noteq> None"
    by (simp add: newNode_def Let_def)
  show ?case
  proof (cases "left a = None \<and> left b = None")
    case True
    then have "leaf_pair ?n"
      using composite.hyps by (simp add: leaf_pair_newNode)
    then show ?thesis
      using True l by (simp add: findFirstOperation_newNode spec_hint_def hint_text_newNode)
  next
    case False
    then have np: "\<not> leaf_pair ?n"
      using composite.hyps by (simp add: leaf_pair_newNode)
    show ?thesis
    proof (cases "left a = None")
      case True
      then have a: "findFirstOperation a = []" "a = leaf (val a)"
        using composite.IH(1) wf_leaf_or_composite[OF composite.hyps(1)] by auto
      have "find leaf_pair (subnodes a) = None"
        by (subst a(2)) simp
      moreover have "left b \<noteq> None"
        using True False by simp
      ultimately show ?thesis
        using False a(1) l np composite.IH(2)
        by (auto simp: findFirstOperation_newNode spec_hint_def find_append)
    next
      case False
      then have "findFirstOperation a \<noteq> []" "find leaf_pair (subnodes a) \<noteq> None"
        using composite.IH(1) wf_leaf_or_composite[OF composite.hyps(1)] by auto
      then show ?thesis
        using False l np composite.IH(1)
        by (auto simp: findFirstOperation_newNode spec_hint_def find_append)
    qed
  qed
qed

definition pretty_char :: "char \<Rightarrow> char" where
  "pretty_char c = (if c = CHR ''*'' then times_sign else if c = CHR ''/'' then div_sign else c)"

lemma prettySolution_map: "prettySolution n = map pretty_char (str n)"
  by (simp add: prettySolution_def replace_all_def pretty_char_def times_sign_def div_sign_def)

lemma number_chars_not_ops:
  "CHR ''*'' \<notin> number_chars" "CHR ''/'' \<notin> number_chars" "CHR '' '' \<notin> number_chars"
  "CHR ''('' \<notin> number_chars" "CHR '')'' \<notin> number_chars" "CHR ''+'' \<notin> number_chars"
  "times_sign \<notin> number_chars" "div_sign \<notin> number_chars"
  by (simp_all add: number_chars_def digit_chars_def times_sign_def div_sign_def)

lemma toString_avoids:
  "c \<in> {CHR ''*'', CHR ''/'', CHR '' '', CHR ''('', CHR '')'', CHR ''+'', times_sign, div_sign}
   \<Longrightarrow> c \<notin> set (toString v)"
proof (cases "is_finite v")
  case True
  assume "c \<in> {CHR ''*'', CHR ''/'', CHR '' '', CHR ''('', CHR '')'', CHR ''+'', times_sign, div_sign}"
  then have "c \<notin> number_chars"
    using number_chars_not_ops by auto
  then show ?thesis
    using toString_finite_chars[OF True] by auto
next
  case False
  assume "c \<in> {CHR ''*'', CHR ''/'', CHR '' '', CHR ''('', CHR '')'', CHR ''+'', times_sign, div_sign}"
  then show ?thesis
    using False by (cases v) (auto simp: times_sign_def div_sign_def)
qed

lemma pretty_toString: "map pretty_char (toString v) = toString v"
proof -
  have "pretty_char c = c" if "c \<in> set (toString v)" for c
    using that toString_avoids[of "CHR ''*''" v] toString_avoids[of "CHR ''/''" v]
    by (auto simp: pretty_char_def)
  then show ?thesis
    by (simp add: map_idI)
qed

lemma pretty_op: "operation \<in> set ops \<Longrightarrow> map pretty_char (op operation) = display_symbol (op operation)"
  by (auto simp: ops_def pretty_char_def display_symbol_def)

lemma subnodes_self: "n \<in> set (subnodes n)"
  by (cases n) simp

lemma subnodes_wf: "wf_node n \<Longrightarrow> m \<in> set (subnodes n) \<Longrightarrow> wf_node m"
  by (induction rule: wf_node_induct) (auto simp: wf_node_newNode)

lemma sublist_parens: "sublist s (CHR ''('' # s @ '')'')"
  unfolding sublist_def by (intro exI[of _ "''(''"] exI[of _ "'')''"]) simp

lemma sublist_leftStr: "sublist (str a) (leftStr a operation)"
  by (simp add: leftStr_def sublist_parens)

lemma sublist_rightStr: "sublist (str b) (rightStr b operation)"
  by (simp add: rightStr_def sublist_parens)

lemma str_sublist: "wf_node n \<Longrightarrow> m \<in> set (subnodes n) \<Longrightarrow> sublist (str m) (str n)"
proof (induction rule: wf_node_induct)
  case (leaf v)
  then show ?case by simp
next
  case (composite a b operation)
  let ?n = "newNode a b operation"
  have a: "sublist (leftStr a operation) (str ?n)"
    unfolding str_newNode by (rule sublist_append_rightI) 
  have "sublist (rightStr b operation) (str ?n)"
    unfolding str_newNode sublist_def
    by (intro exI[of _ "leftStr a operation @ '' '' @ op operation @ '' ''"] exI[of _ "[]"]) simp
  then have b: "sublist (str b) (str ?n)"
    using sublist_rightStr sublist_order.order_trans by blast
  have a': "sublist (str a) (str ?n)"
    using a sublist_leftStr sublist_order.order_trans by blast
  from composite.prems consider "m = ?n" | "m \<in> set (subnodes a)" | "m \<in> set (subnodes b)"
    by auto
  then show ?case
  proof cases
    case 1
    then show ?thesis by simp
  next
    case 2
    then show ?thesis
      using composite.IH(1) a' sublist_order.order_trans by blast
  next
    case 3
    then show ?thesis
      using composite.IH(2) b sublist_order.order_trans by blast
  qed
qed

lemma sublist_map_pretty:
  assumes "sublist xs ys"
  shows "sublist (map f xs) (map f ys)"
proof -
  from assms obtain ps ss where "ys = ps @ xs @ ss"
    by (auto simp: sublist_def)
  then have "map f ys = map f ps @ map f xs @ map f ss"
    by simp
  then show ?thesis
    unfolding sublist_def by blast
qed

lemma leaf_pair_pretty:
  assumes "wf_node m" "leaf_pair m"
  shows "map pretty_char (str m) = hint_text m"
  using assms
proof (induction rule: wf_node_induct)
  case (leaf v)
  then show ?case by simp
next
  case (composite a b operation)
  then have "left a = None" "left b = None"
    by (simp_all add: leaf_pair_newNode)
  then have "a = leaf (val a)" "b = leaf (val b)"
    using wf_leaf_or_composite composite.hyps by blast+
  then have "opLevel a = opLevel (leaf (val a))" "opLevel b = opLevel (leaf (val b))"
    "str a = str (leaf (val a))" "str b = str (leaf (val b))"
    by simp_all
  then have "opLevel a = 0" "opLevel b = 0" "str a = toString (val a)" "str b = toString (val b)"
    by (simp_all add: leaf_def)
  moreover have "pretty_char (CHR '' '') = CHR '' ''"
    by (simp add: pretty_char_def)
  ultimately show ?case
    using composite.hyps(3)
    by (simp add: str_newNode leftStr_def rightStr_def hint_text_newNode pretty_toString pretty_op)
qed

lemma hint_sublist:
  assumes "wf_node n" "find leaf_pair (subnodes n) = Some m"
  shows "sublist (spec_hint n) (prettySolution n)"
proof -
  from assms(2) have m: "m \<in> set (subnodes n)" "leaf_pair m"
    by (auto simp: find_Some_iff)
  then have "wf_node m"
    using assms(1) subnodes_wf by blast
  then have "hint_text m = map pretty_char (str m)"
    using m(2) by (simp add: leaf_pair_pretty)
  moreover have "sublist (map pretty_char (str m)) (map pretty_char (str n))"
    using assms(1) m(1) by (intro sublist_map_pretty str_sublist)
  ultimately show ?thesis
    using assms(2) by (simp add: spec_hint_def prettySolution_map)
qed

subsection \<open>The operands of a solution string\<close>

text \<open>
  The operands of an expression text: delete the parentheses, split at the spaces and
  drop the words that are operator symbols.
\<close>

fun split_on :: "char \<Rightarrow> string \<Rightarrow> string list" where
  "split_on c [] = [[]]"
| "split_on c (x # xs) =
     (if x = c then [] # split_on c xs
      else (case split_on c xs of w # ws \<Rightarrow> (x # w) # ws | [] \<Rightarrow> [[x]]))"

definition operators :: "string set" where
  "operators = {''+'', ''-'', [times_sign], [div_sign]}"

definition operands :: "string \<Rightarrow> string list" where
  "operands s =
     filter (\<lambda>w. w \<notin> operators)
       (split_on (CHR '' '') (filter (\<lambda>c. c \<noteq> CHR ''('' \<and> c \<noteq> CHR '')'') s))"

lemma split_on_nonempty: "split_on c s \<noteq> []"
  by (induction s) (auto split: list.splits)

lemma split_on_append: "split_on c (x @ c # y) = split_on c x @ split_on c y"
proof (induction x)
  case Nil
  show ?case by simp
next
  case (Cons h t)
  obtain w ws where "split_on c t = w # ws"
    using split_on_nonempty[of c t] by (cases "split_on c t") auto
  then show ?case
    using Cons by simp
qed

lemma split_on_nosep: "c \<notin> set w \<Longrightarrow> split_on c w = [w]"
  by (induction w) auto

lemma decimal_nonempty: "decimal n \<noteq> []"
  by (subst decimal.simps) simp

lemma minus_not_digit: "CHR ''-'' \<notin> digit_chars"
  by (simp add: digit_chars_def)

lemma toString_not_minus: "toString v \<noteq> ''-''"
proof (cases v)
  case (Fin x)
  let ?d = "decimal (nat \<lfloor>\<bar>x\<bar>\<rfloor>)"
  obtain h t where d: "?d = h # t"
    using decimal_nonempty by (cases ?d) auto
  then have "h \<in> digit_chars"
    using decimal_digits[of "nat \<lfloor>\<bar>x\<bar>\<rfloor>"] by simp
  then have "h \<noteq> CHR ''-''"
    using minus_not_digit by auto
  then show ?thesis
    unfolding Fin by (simp add: Let_def d)
qed simp_all

lemma toString_operand: "toString v \<notin> operators"
proof -
  have "CHR ''+'' \<notin> set (toString v)" "times_sign \<notin> set (toString v)" "div_sign \<notin> set (toString v)"
    by (rule toString_avoids, simp)+
  then have "toString v \<noteq> ''+''" "toString v \<noteq> [times_sign]" "toString v \<noteq> [div_sign]"
    by auto
  then show ?thesis
    using toString_not_minus by (simp add: operators_def)
qed

lemma operands_toString: "operands (toString v) = [toString v]"
proof -
  have "CHR ''('' \<notin> set (toString v)" "CHR '')'' \<notin> set (toString v)" "CHR '' '' \<notin> set (toString v)"
    by (rule toString_avoids, simp)+
  then have "filter (\<lambda>c. c \<noteq> CHR ''('' \<and> c \<noteq> CHR '')'') (toString v) = toString v"
    "split_on (CHR '' '') (toString v) = [toString v]"
    by (auto simp: split_on_nosep intro!: filter_True)
  then show ?thesis
    using toString_operand by (simp add: operands_def)
qed

lemma operands_space: "operands (x @ CHR '' '' # y) = operands x @ operands y"
  by (simp add: operands_def split_on_append)

lemma operands_parens: "operands (CHR ''('' # x @ '')'') = operands x"
  by (simp add: operands_def)

lemma operands_symbol:
  "operation \<in> set ops \<Longrightarrow> operands (display_symbol (op operation)) = []"
  by (auto simp: ops_def operands_def display_symbol_def operators_def times_sign_def div_sign_def)

lemma prettySolution_newNode:
  assumes "operation \<in> set ops"
  shows "prettySolution (newNode a b operation) =
     map pretty_char (leftStr a operation) @ '' '' @ display_symbol (op operation) @ '' '' @
     map pretty_char (rightStr b operation)"
proof -
  have "pretty_char (CHR '' '') = CHR '' ''"
    by (simp add: pretty_char_def)
  then show ?thesis
    using assms by (simp add: prettySolution_map str_newNode pretty_op)
qed

lemma pretty_paren: "pretty_char (CHR ''('') = CHR ''(''" "pretty_char (CHR '')'') = CHR '')''"
  by (simp_all add: pretty_char_def)

lemma operands_solution:
  assumes "wf_node n"
  shows "operands (prettySolution n) = map toString (leaves n)"
  using assms
proof (induction rule: wf_node_induct)
  case (leaf v)
  show ?case
    by (simp add: prettySolution_map pretty_toString operands_toString)
next
  case (composite a b operation)
  have l: "operands (map pretty_char (leftStr a operation)) = map toString (leaves a)"
    using composite.IH(1) by (simp add: leftStr_def operands_parens pretty_paren prettySolution_map)
  have r: "operands (map pretty_char (rightStr b operation)) = map toString (leaves b)"
    using composite.IH(2) by (simp add: rightStr_def operands_parens pretty_paren prettySolution_map)
  show ?case
    using l r composite.hyps(3)
    by (simp add: prettySolution_newNode operands_space operands_symbol)
qed

lemma solve24_solvableD:
  assumes "solvable (solve24 numbers)"
  obtains rootNode where "findSolution (initialNodes numbers) = Some rootNode"
    "solution (solve24 numbers) = Some (prettySolution rootNode)"
    "firstStepHint (solve24 numbers) = Some (findFirstOperation rootNode)"
  using assms by (auto simp: solve24_def split: option.splits)

lemma solve24_unsolvable:
  "\<not> solvable (solve24 numbers) \<Longrightarrow>
   solution (solve24 numbers) = None \<and> firstStepHint (solve24 numbers) = None"
  by (auto simp: solve24_def split: option.splits)

lemma frontier_leaves_single [simp]: "frontier_leaves [r] = mset (leaves r)"
  by (simp add: frontier_leaves_def)


subsection \<open>Inputs without a solution\<close>

text \<open>
  An invariant of the frontier that excludes a value near 24 at a single node shows
  that the search finds nothing. For four zeros every value is zero; for four ones a
  node over \<open>k\<close> leaves has one of the few values listed in \<open>ones_values\<close>.
\<close>

lemma findSolution_None_invariant:
  assumes "\<And>nodes i j operation. P nodes \<Longrightarrow> i < length nodes \<Longrightarrow> j < length nodes \<Longrightarrow>
       i \<noteq> j \<Longrightarrow> operation \<in> set ops \<Longrightarrow> \<not> skipped operation (nodes ! j) \<Longrightarrow>
       P (child_frontier nodes i j operation)"
    and "P nodes" and "\<And>r. P [r] \<Longrightarrow> \<not> within24 r"
  shows "findSolution nodes = None"
proof (cases "findSolution nodes")
  case (Some r)
  from findSolution_invariant[of P, OF assms(1) assms(2) Some] assms(3)
  show ?thesis by blast
qed simp

lemma zeros_unsolvable: "findSolution (initialNodes [Fin 0, Fin 0, Fin 0, Fin 0]) = None"
proof (rule findSolution_None_invariant[where P = "\<lambda>nodes. \<forall>n \<in> set nodes. val n = Fin 0"])
  show "\<forall>n \<in> set (initialNodes [Fin 0, Fin 0, Fin 0, Fin 0]). val n = Fin 0"
    by (simp add: initialNodes_def)
next
  fix r assume "\<forall>n \<in> set [r]. val n = Fin 0"
  then show "\<not> within24 r"
    by (simp add: within24_def js_sub_def EPSILON_def)
next
  fix nodes i j operation
  assume h: "\<forall>n \<in> set nodes. val n = Fin 0" "i < length nodes" "j < length nodes" "i \<noteq> j"
    "operation \<in> set ops" "\<not> skipped operation (nodes ! j)"
  show "\<forall>n \<in> set (child_frontier nodes i j operation). val n = Fin 0"
  proof (rule child_frontier_all[OF h(1-4)])
    assume "val (nodes ! i) = Fin 0" "val (nodes ! j) = Fin 0"
    then show "val (newNode (nodes ! i) (nodes ! j) operation) = Fin 0"
      using h(5,6) by (auto simp: ops_def skipped_def js_sub_def EPSILON_def)
  qed
qed

definition leaf_count :: "ExprNode \<Rightarrow> nat" where
  "leaf_count n = length (leaves n)"

definition ones_values :: "nat \<Rightarrow> jsnum set" where
  "ones_values k =
     (if k = 1 then {Fin 1}
      else if k = 2 then {Fin 0, Fin 1, Fin 2}
      else if k = 3 then {Fin (- 1), Fin 0, Fin (1 / 2), Fin 1, Fin 2, Fin 3}
      else {x. is_finite x \<and> js_lt (js_abs x) (Fin 5)})"

definition ones_node :: "ExprNode \<Rightarrow> bool" where
  "ones_node n = (1 \<le> leaf_count n \<and> val n \<in> ones_values (leaf_count n))"

lemma leaf_count_frontier: "size (frontier_leaves nodes) = sum_list (map leaf_count nodes)"
  by (induction nodes) (simp_all add: frontier_leaves_def leaf_count_def)

lemma leaf_count_pair:
  assumes "i < length nodes" "j < length nodes" "i \<noteq> j"
  shows "leaf_count (nodes ! i) + leaf_count (nodes ! j) \<le> size (frontier_leaves nodes)"
proof -
  have "frontier_leaves nodes =
      (\<Sum>n \<in># mset (filter_idx (\<lambda>idx. idx \<noteq> i \<and> idx \<noteq> j) nodes) + {#nodes ! i, nodes ! j#}. mset (leaves n))"
    by (simp only: frontier_leaves_def mset_filter_idx[OF assms])
  then show ?thesis
    by (simp add: leaf_count_def)
qed

lemma ones_step:
  assumes "ones_node a" "ones_node b" "leaf_count a + leaf_count b \<le> 4"
    "operation \<in> set ops" "\<not> skipped operation b"
  shows "ones_node (newNode a b operation)"
proof -
  have lc: "leaf_count (newNode a b operation) = leaf_count a + leaf_count b"
    by (simp add: leaf_count_def)
  from assms(1,2) have pq: "val a \<in> ones_values (leaf_count a)"
    "val b \<in> ones_values (leaf_count b)" "1 \<le> leaf_count a" "1 \<le> leaf_count b"
    by (auto simp: ones_node_def)
  from pq(3,4) assms(3) consider
    "leaf_count a = 1" "leaf_count b = 1" | "leaf_count a = 1" "leaf_count b = 2" |
    "leaf_count a = 2" "leaf_count b = 1" | "leaf_count a = 1" "leaf_count b = 3" |
    "leaf_count a = 3" "leaf_count b = 1" | "leaf_count a = 2" "leaf_count b = 2"
    by linarith
  then show ?thesis
  proof cases
    case 1
    then show ?thesis
      using pq(1,2) assms(4,5)
      by (auto simp: ones_node_def lc ones_values_def ops_def js_sub_def skipped_def EPSILON_def)
  next
    case 2
    then show ?thesis
      using pq(1,2) assms(4,5)
      by (auto simp: ones_node_def lc ones_values_def ops_def js_sub_def skipped_def EPSILON_def)
  next
    case 3
    then show ?thesis
      using pq(1,2) assms(4,5)
      by (auto simp: ones_node_def lc ones_values_def ops_def js_sub_def skipped_def EPSILON_def)
  next
    case 4
    then show ?thesis
      using pq(1,2) assms(4,5)
      by (auto simp: ones_node_def lc ones_values_def ops_def js_sub_def skipped_def EPSILON_def)
  next
    case 5
    then show ?thesis
      using pq(1,2) assms(4,5)
      by (auto simp: ones_node_def lc ones_values_def ops_def js_sub_def skipped_def EPSILON_def)
  next
    case 6
    then show ?thesis
      using pq(1,2) assms(4,5)
      by (auto simp: ones_node_def lc ones_values_def ops_def js_sub_def skipped_def EPSILON_def)
  qed
qed

lemma ones_unsolvable: "findSolution (initialNodes [Fin 1, Fin 1, Fin 1, Fin 1]) = None"
proof (rule findSolution_None_invariant[where
      P = "\<lambda>nodes. (\<forall>n \<in> set nodes. ones_node n) \<and> size (frontier_leaves nodes) = 4"])
  show "(\<forall>n \<in> set (initialNodes [Fin 1, Fin 1, Fin 1, Fin 1]). ones_node n) \<and>
        size (frontier_leaves (initialNodes [Fin 1, Fin 1, Fin 1, Fin 1])) = 4"
    by (simp add: frontier_leaves_initial)
       (simp add: initialNodes_def ones_node_def leaf_count_def ones_values_def)
next
  fix r assume "(\<forall>n \<in> set [r]. ones_node n) \<and> size (frontier_leaves [r]) = 4"
  then have "val r \<in> ones_values 4"
    by (auto simp: ones_node_def leaf_count_def)
  then have "is_finite (val r)" "js_lt (js_abs (val r)) (Fin 5)"
    by (simp_all add: ones_values_def)
  then show "\<not> within24 r"
    by (cases "val r") (auto simp: within24_def js_sub_def EPSILON_def)
next
  fix nodes i j operation
  assume h: "(\<forall>n \<in> set nodes. ones_node n) \<and> size (frontier_leaves nodes) = 4"
    "i < length nodes" "j < length nodes" "i \<noteq> j"
    "operation \<in> set ops" "\<not> skipped operation (nodes ! j)"
  have le: "leaf_count (nodes ! i) + leaf_count (nodes ! j) \<le> 4"
    using leaf_count_pair[OF h(2-4)] h(1) by simp
  have "\<forall>n \<in> set (child_frontier nodes i j operation). ones_node n"
  proof (rule child_frontier_all[OF _ h(2-4)])
    show "\<forall>n \<in> set nodes. ones_node n" using h(1) by simp
    assume "ones_node (nodes ! i)" "ones_node (nodes ! j)"
    then show "ones_node (newNode (nodes ! i) (nodes ! j) operation)"
      using le h(5,6) by (rule ones_step)
  qed
  then show "(\<forall>n \<in> set (child_frontier nodes i j operation). ones_node n) \<and>
        size (frontier_leaves (child_frontier nodes i j operation)) = 4"
    using h by (simp add: frontier_leaves_child)
qed

lemma plain_letters: "CHR ''N'' \<notin> plain_chars" "CHR ''I'' \<notin> plain_chars"
  by (simp_all add: plain_chars_def number_chars_def digit_chars_def times_sign_def div_sign_def)


subsection \<open>The record of the search; the division guard\<close>

text \<open>
  \<open>findSolution_trace\<close> is \<^verbatim>\<open>findSolution\<close> with a record of its work: the same loops, the
  same tests and the same recursive calls, returning with the result the list of the
  nodes built at line 99, in the order in which they are built. The record of a loop that
  ends early ends with the record of the iteration that returned.
\<close>

fun first_some_log :: "('a \<Rightarrow> 'c list \<times> 'b option) \<Rightarrow> 'a list \<Rightarrow> 'c list \<times> 'b option" where
  "first_some_log f [] = ([], None)"
| "first_some_log f (x # xs) =
     (case f x of
        (l, Some r) \<Rightarrow> (l, Some r)
      | (l, None) \<Rightarrow> (case first_some_log f xs of (l', r') \<Rightarrow> (l @ l', r')))"

lemma first_some_log_cong [fundef_cong]:
  "xs = ys \<Longrightarrow> (\<And>x. x \<in> set ys \<Longrightarrow> f x = g x) \<Longrightarrow> first_some_log f xs = first_some_log g ys"
  by (induction ys arbitrary: xs) (auto split: option.splits prod.splits)

function findSolution_trace :: "ExprNode list \<Rightarrow> ExprNode list \<times> ExprNode option" where
  "findSolution_trace nodes =
     (if length nodes = 1 then
        ([], if js_lt (js_abs (js_sub (val (nodes ! 0)) (Fin 24))) EPSILON
             then Some (nodes ! 0) else None)
      else
        first_some_log (\<lambda>i.
          first_some_log (\<lambda>j.
            if i = j then ([], None)
            else
              let a = nodes ! i;
                  b = nodes ! j;
                  remaining = filter_idx (\<lambda>idx. idx \<noteq> i \<and> idx \<noteq> j) nodes
              in first_some_log (\<lambda>operation.
                   if op operation = ''/'' \<and> js_lt (js_abs (val b)) EPSILON then ([], None)
                   else
                     let built = newNode a b operation;
                         (l, result) = findSolution_trace (remaining @ [built])
                     in (built # l, result))
                 ops)
            [0..<length nodes])
          [0..<length nodes])"
  by pat_completeness auto
termination
proof (relation "measure length", goal_cases)
  case 1
  show ?case by simp
next
  case (2 nodes i j a b remaining operation built)
  then have "i < length nodes" "j < length nodes" "i \<noteq> j"
    by auto
  then have "length remaining = length nodes - 2" "2 \<le> length nodes"
    using 2 by (auto simp: length_filter_idx)
  then show ?case
    by simp
qed

declare findSolution_trace.simps [simp del]

lemma first_some_log_snd:
  "snd (first_some_log f xs) = first_some (\<lambda>x. snd (f x)) xs"
  by (induction xs) (auto split: option.splits prod.splits)

lemma first_some_log_fst:
  "n \<in> set (fst (first_some_log f xs)) \<Longrightarrow> \<exists>x \<in> set xs. n \<in> set (fst (f x))"
  by (induction xs) (auto split: option.splits prod.splits)

lemma findSolution_trace_single:
  "length nodes = 1 \<Longrightarrow>
   findSolution_trace nodes = ([], if within24 (nodes ! 0) then Some (nodes ! 0) else None)"
  by (subst findSolution_trace.simps) (simp add: within24_def)

lemma findSolution_trace_loops:
  "length nodes \<noteq> 1 \<Longrightarrow>
   findSolution_trace nodes =
     first_some_log (\<lambda>i. first_some_log (\<lambda>j. if i = j then ([], None) else
       first_some_log (\<lambda>operation. if skipped operation (nodes ! j) then ([], None)
          else (newNode (nodes ! i) (nodes ! j) operation #
                  fst (findSolution_trace (child_frontier nodes i j operation)),
                snd (findSolution_trace (child_frontier nodes i j operation)))) ops)
       [0..<length nodes]) [0..<length nodes]"
  by (subst findSolution_trace.simps)
     (simp add: Let_def skipped_def child_frontier_def split_beta cong: if_cong)

lemma findSolution_trace_result: "snd (findSolution_trace nodes) = findSolution nodes"
proof (induction "length nodes" arbitrary: nodes rule: less_induct)
  case less
  show ?case
  proof (cases "length nodes = 1")
    case True
    then show ?thesis
      by (simp add: findSolution_trace_single findSolution_single)
  next
    case False
    have ih: "snd (findSolution_trace (child_frontier nodes i j operation)) =
        findSolution (child_frontier nodes i j operation)"
      if "i < length nodes" "j < length nodes" "i \<noteq> j" for i j operation
    proof -
      have "length (child_frontier nodes i j operation) < length nodes"
        using that by (simp add: length_child_frontier)
      then show ?thesis
        by (rule less.hyps)
    qed
    let ?body = "\<lambda>i j operation. if skipped operation (nodes ! j) then ([], None)
          else (newNode (nodes ! i) (nodes ! j) operation #
                  fst (findSolution_trace (child_frontier nodes i j operation)),
                snd (findSolution_trace (child_frontier nodes i j operation)))"
    let ?plain = "\<lambda>i j operation. if skipped operation (nodes ! j) then None
          else findSolution (child_frontier nodes i j operation)"
    have a: "first_some (\<lambda>operation. snd (?body i j operation)) ops = first_some (?plain i j) ops"
      if "i < length nodes" "j < length nodes" "i \<noteq> j" for i j
      by (rule first_some_cong) (simp_all add: ih that)
    have b: "first_some (\<lambda>j. snd (if i = j then ([], None) else first_some_log (?body i j) ops))
          [0..<length nodes] =
        first_some (\<lambda>j. if i = j then None else first_some (?plain i j) ops) [0..<length nodes]"
      if "i < length nodes" for i
      by (rule first_some_cong) (simp_all add: first_some_log_snd a that)
    have "first_some (\<lambda>i. snd (first_some_log (\<lambda>j. if i = j then ([], None)
            else first_some_log (?body i j) ops) [0..<length nodes])) [0..<length nodes] =
        first_some (\<lambda>i. first_some (\<lambda>j. if i = j then None else first_some (?plain i j) ops)
          [0..<length nodes]) [0..<length nodes]"
      by (rule first_some_cong) (simp_all add: first_some_log_snd b)
    then show ?thesis
      by (simp only: findSolution_trace_loops[OF False] findSolution_loops[OF False]
          first_some_log_snd)
  qed
qed

definition guarded :: "ExprNode \<Rightarrow> bool" where
  "guarded n = (\<exists>a b operation. operation \<in> set ops \<and> n = newNode a b operation \<and>
      \<not> (op operation = ''/'' \<and> js_lt (js_abs (val b)) EPSILON))"

lemma findSolution_trace_guarded:
  "n \<in> set (fst (findSolution_trace nodes)) \<Longrightarrow> guarded n"
proof (induction "length nodes" arbitrary: nodes rule: less_induct)
  case less
  show ?case
  proof (cases "length nodes = 1")
    case True
    with less.prems show ?thesis
      by (simp add: findSolution_trace_single)
  next
    case False
    let ?body = "\<lambda>i j operation. if skipped operation (nodes ! j) then ([], None)
          else (newNode (nodes ! i) (nodes ! j) operation #
                  fst (findSolution_trace (child_frontier nodes i j operation)),
                snd (findSolution_trace (child_frontier nodes i j operation)))"
    from less.prems have "n \<in> set (fst (first_some_log (\<lambda>i. first_some_log (\<lambda>j.
        if i = j then ([], None) else first_some_log (?body i j) ops)
       [0..<length nodes]) [0..<length nodes]))"
      by (simp only: findSolution_trace_loops[OF False])
    from first_some_log_fst[OF this] obtain i where i: "i < length nodes"
      and 1: "n \<in> set (fst (first_some_log (\<lambda>j.
        if i = j then ([], None) else first_some_log (?body i j) ops) [0..<length nodes]))"
      by auto
    from first_some_log_fst[OF 1] obtain j where j: "j < length nodes" "i \<noteq> j"
      and 2: "n \<in> set (fst (first_some_log (?body i j) ops))"
      by (auto split: if_splits)
    from first_some_log_fst[OF 2] obtain operation where o: "operation \<in> set ops"
      "\<not> skipped operation (nodes ! j)"
      and 3: "n = newNode (nodes ! i) (nodes ! j) operation \<or>
          n \<in> set (fst (findSolution_trace (child_frontier nodes i j operation)))"
      by (auto split: if_splits)
    from 3 show ?thesis
    proof
      assume "n = newNode (nodes ! i) (nodes ! j) operation"
      with o show ?thesis
        unfolding guarded_def skipped_def by blast
    next
      assume n: "n \<in> set (fst (findSolution_trace (child_frontier nodes i j operation)))"
      have "length (child_frontier nodes i j operation) < length nodes"
        using i j by (simp add: length_child_frontier)
      from less.hyps[OF this n] show ?thesis .
    qed
  qed
qed

text \<open>Every division in a returned tree has passed the guard.\<close>

definition guarded_tree :: "ExprNode \<Rightarrow> bool" where
  "guarded_tree n = (\<forall>m \<in> set (subnodes n). opStr m = Some ''/'' \<longrightarrow>
      (\<exists>b. right m = Some b \<and> \<not> js_lt (js_abs (val b)) EPSILON))"

lemma guarded_tree_leaf: "guarded_tree (leaf v)"
  by (simp add: guarded_tree_def leaf_def)

lemma guarded_tree_newNode:
  assumes "operation \<in> set ops" "\<not> skipped operation b" "guarded_tree a" "guarded_tree b"
  shows "guarded_tree (newNode a b operation)"
proof -
  have "opStr (newNode a b operation) = Some (op operation)"
    "right (newNode a b operation) = Some b"
    by (simp_all add: newNode_def Let_def)
  then show ?thesis
    using assms unfolding guarded_tree_def skipped_def by auto
qed

lemma findSolution_guarded:
  assumes "\<forall>n \<in> set nodes. guarded_tree n" "findSolution nodes = Some r"
  shows "guarded_tree r"
proof -
  let ?P = "\<lambda>fr. (\<forall>n \<in> set fr. guarded_tree n)"
  have "?P [r] \<and> within24 r"
  proof (rule findSolution_invariant[where P = ?P])
    show "?P nodes" using assms(1) by simp
    show "findSolution nodes = Some r" by fact
  next
    fix fr i j operation
    assume h: "?P fr" "i < length fr" "j < length fr" "i \<noteq> j" "operation \<in> set ops"
      "\<not> skipped operation (fr ! j)"
    then show "?P (child_frontier fr i j operation)"
      by (intro child_frontier_all) (auto intro: guarded_tree_newNode)
  qed
  then show ?thesis by simp
qed


section \<open>The hand dealer\<close>

text \<open>
  \<^verbatim>\<open>generateDeck\<close>, \<^verbatim>\<open>shuffleDeck\<close> and \<^verbatim>\<open>drawCards\<close> call \<^verbatim>\<open>Math.random()\<close>. The random
  source is explicit state: the sequence of the numbers the next calls return, each in
  \<open>[0, 1)\<close> for a valid source. A card's \<^verbatim>\<open>id\<close> string is kept as its three parts (the
  value, the suit and the random number). The fields \<^verbatim>\<open>id\<close> and \<^verbatim>\<open>value\<close> and the
  parameter \<^verbatim>\<open>count\<close> are renamed, their names being taken in Isabelle/HOL.
  \<^verbatim>\<open>slice(0, count)\<close> is \<open>slice0\<close>, with JavaScript's reading of a negative end.
\<close>

datatype Suit = Hearts | Diamonds | Clubs | Spades

datatype Color = red | black

datatype Difficulty = Easy | Hard

record PlayingCard =
  card_id :: "nat \<times> Suit \<times> rat"
  card_value :: jsnum
  suit :: Suit
  color :: Color

type_synonym rng = "nat \<Rightarrow> rat"

definition random :: "rng \<Rightarrow> rat \<times> rng" where
  "random g = (g 0, \<lambda>n. g (Suc n))"

definition valid_rng :: "rng \<Rightarrow> bool" where
  "valid_rng g = (\<forall>n. 0 \<le> g n \<and> g n < 1)"

definition generateDeck :: "Difficulty \<Rightarrow> rng \<Rightarrow> PlayingCard list \<times> rng" where
  "generateDeck difficulty g =
     (let suits = [Hearts, Diamonds, Clubs, Spades];
          maxVal = (if difficulty = Hard then 13 else 10)
      in fold (\<lambda>i. fold (\<lambda>s (deck, g).
                 let (r, g') = random g
                 in (deck @ [\<lparr>card_id = (i, s, r),
                              card_value = Fin (of_nat i),
                              suit = s,
                              color = (if s = Hearts \<or> s = Diamonds then red else black)\<rparr>],
                     g'))
               suits)
           [1..<maxVal + 1] ([], g))"

definition shuffleDeck :: "PlayingCard list \<Rightarrow> rng \<Rightarrow> PlayingCard list \<times> rng" where
  "shuffleDeck deck g =
     fold (\<lambda>i (newDeck, g).
             let (r, g') = random g;
                 j = nat \<lfloor>r * of_nat (i + 1)\<rfloor>
             in (newDeck[i := newDeck ! j, j := newDeck ! i], g'))
          (rev [1..<length deck]) (deck, g)"

definition slice0 :: "'a list \<Rightarrow> int \<Rightarrow> 'a list" where
  "slice0 xs n = (if n < 0 then take (nat (int (length xs) + n)) xs else take (nat n) xs)"

function drawCards_loop :: "nat \<Rightarrow> int \<Rightarrow> Difficulty \<Rightarrow> rng \<Rightarrow> PlayingCard list \<times> rng" where
  "drawCards_loop attempts cnt difficulty g =
     (if attempts < 100 then
        (let (deck, g1) = generateDeck difficulty g;
             (shuffled, g2) = shuffleDeck deck g1;
             hand = slice0 shuffled cnt;
             numbers = map card_value hand;
             result = solve24 numbers
         in if solvable result then (hand, g2)
            else drawCards_loop (attempts + 1) cnt difficulty g2)
      else
        (let (deck, g1) = generateDeck difficulty g in (slice0 deck cnt, g1)))"
  by pat_completeness auto
termination
  by (relation "measure (\<lambda>(attempts, cnt, difficulty, g). 100 - attempts)") auto

declare drawCards_loop.simps [simp del]

definition drawCards :: "int \<Rightarrow> Difficulty \<Rightarrow> rng \<Rightarrow> PlayingCard list \<times> rng" where
  "drawCards cnt difficulty g = drawCards_loop 0 cnt difficulty g"

definition attempt :: "int \<Rightarrow> Difficulty \<Rightarrow> rng \<Rightarrow> PlayingCard list \<times> rng" where
  "attempt cnt difficulty g =
     (let (deck, g1) = generateDeck difficulty g;
          (shuffled, g2) = shuffleDeck deck g1
      in (slice0 shuffled cnt, g2))"


definition rng_after :: "int \<Rightarrow> Difficulty \<Rightarrow> rng \<Rightarrow> nat \<Rightarrow> rng" where
  "rng_after cnt difficulty g k = ((\<lambda>g. snd (attempt cnt difficulty g)) ^^ k) g"

definition hand_at :: "int \<Rightarrow> Difficulty \<Rightarrow> rng \<Rightarrow> nat \<Rightarrow> PlayingCard list" where
  "hand_at cnt difficulty g k = fst (attempt cnt difficulty (rng_after cnt difficulty g k))"

definition hand_solvable :: "PlayingCard list \<Rightarrow> bool" where
  "hand_solvable hand = solvable (solve24 (map card_value hand))"

definition full_deck :: "nat \<Rightarrow> (jsnum \<times> Suit \<times> Color) list" where
  "full_deck maxVal =
     [(Fin (of_nat i), s, c).
        i \<leftarrow> [1..<maxVal + 1],
        (s, c) \<leftarrow> [(Hearts, red), (Diamonds, red), (Clubs, black), (Spades, black)]]"

lemma drawCards_loop_step:
  "attempts < 100 \<Longrightarrow>
   drawCards_loop attempts cnt difficulty g =
     (if hand_solvable (fst (attempt cnt difficulty g)) then attempt cnt difficulty g
      else drawCards_loop (attempts + 1) cnt difficulty (snd (attempt cnt difficulty g)))"
  by (subst drawCards_loop.simps)
     (simp add: attempt_def hand_solvable_def Let_def split: prod.splits)

lemma drawCards_loop_fallback:
  "\<not> attempts < 100 \<Longrightarrow>
   drawCards_loop attempts cnt difficulty g =
     (slice0 (fst (generateDeck difficulty g)) cnt, snd (generateDeck difficulty g))"
  by (subst drawCards_loop.simps) (simp add: Let_def split: prod.splits)

lemma rng_after_Suc:
  "rng_after cnt difficulty g (Suc k) = rng_after cnt difficulty (snd (attempt cnt difficulty g)) k"
  by (simp add: rng_after_def funpow_Suc_right del: funpow.simps)

lemma hand_at_Suc:
  "hand_at cnt difficulty g (Suc k) = hand_at cnt difficulty (snd (attempt cnt difficulty g)) k"
  by (simp add: hand_at_def rng_after_Suc)

lemma hand_at_0: "hand_at cnt difficulty g 0 = fst (attempt cnt difficulty g)"
  by (simp add: hand_at_def rng_after_def)

lemma drawCards_loop_spec:
  assumes "attempts + n = 100"
  shows "(\<exists>k < n. fst (drawCards_loop attempts cnt difficulty g) = hand_at cnt difficulty g k \<and>
            hand_solvable (hand_at cnt difficulty g k) \<and>
            (\<forall>m < k. \<not> hand_solvable (hand_at cnt difficulty g m)))
       \<or> ((\<forall>m < n. \<not> hand_solvable (hand_at cnt difficulty g m)) \<and>
           fst (drawCards_loop attempts cnt difficulty g) =
             slice0 (fst (generateDeck difficulty (rng_after cnt difficulty g n))) cnt)"
  using assms
proof (induction n arbitrary: attempts g)
  case 0
  then show ?case
    by (simp add: drawCards_loop_fallback rng_after_def)
next
  case (Suc n)
  then have lt: "attempts < 100" by simp
  let ?g2 = "snd (attempt cnt difficulty g)"
  show ?case
  proof (cases "hand_solvable (fst (attempt cnt difficulty g))")
    case True
    then have "fst (drawCards_loop attempts cnt difficulty g) = hand_at cnt difficulty g 0 \<and>
       hand_solvable (hand_at cnt difficulty g 0)"
      using lt by (simp add: drawCards_loop_step hand_at_0)
    then show ?thesis
      by (intro disjI1 exI[of _ 0]) simp
  next
    case False
    then have eq: "drawCards_loop attempts cnt difficulty g =
        drawCards_loop (attempts + 1) cnt difficulty ?g2"
      using lt by (simp add: drawCards_loop_step)
    have f0: "\<not> hand_solvable (hand_at cnt difficulty g 0)"
      using False by (simp add: hand_at_0)
    from Suc.prems have "(attempts + 1) + n = 100" by simp
    from Suc.IH[OF this, of ?g2]
    show ?thesis
    proof
      assume "\<exists>k<n. fst (drawCards_loop (attempts + 1) cnt difficulty ?g2) = hand_at cnt difficulty ?g2 k \<and>
            hand_solvable (hand_at cnt difficulty ?g2 k) \<and>
            (\<forall>m<k. \<not> hand_solvable (hand_at cnt difficulty ?g2 m))"
      then obtain k where k: "k < n"
        "fst (drawCards_loop attempts cnt difficulty g) = hand_at cnt difficulty g (Suc k)"
        "hand_solvable (hand_at cnt difficulty g (Suc k))"
        "\<forall>m<k. \<not> hand_solvable (hand_at cnt difficulty g (Suc m))"
        by (auto simp: eq hand_at_Suc)
      have "\<forall>m<Suc k. \<not> hand_solvable (hand_at cnt difficulty g m)"
        using f0 k(4) less_Suc_eq_0_disj by auto
      then show ?thesis
        using k by (intro disjI1 exI[of _ "Suc k"]) simp
    next
      assume a: "(\<forall>m<n. \<not> hand_solvable (hand_at cnt difficulty ?g2 m)) \<and>
           fst (drawCards_loop (attempts + 1) cnt difficulty ?g2) =
             slice0 (fst (generateDeck difficulty (rng_after cnt difficulty ?g2 n))) cnt"
      then have "\<forall>m<Suc n. \<not> hand_solvable (hand_at cnt difficulty g m)"
        using f0 less_Suc_eq_0_disj by (auto simp: hand_at_Suc)
      then show ?thesis
        using a by (intro disjI2) (simp add: eq rng_after_Suc)
    qed
  qed
qed

lemma generateDeck_cards:
  "map (\<lambda>c. (card_value c, suit c, color c)) (fst (generateDeck difficulty g)) =
     full_deck (if difficulty = Hard then 13 else 10)"
  by (cases difficulty) (simp_all add: generateDeck_def full_deck_def random_def upt_rec)

lemma valid_rng_random: "valid_rng g \<Longrightarrow> 0 \<le> fst (random g) \<and> fst (random g) < 1 \<and> valid_rng (snd (random g))"
  by (simp add: valid_rng_def random_def)

lemma shuffle_fold:
  assumes "\<forall>i \<in> set idxs. i < length deck" "valid_rng g"
  shows "mset (fst (fold (\<lambda>i (newDeck, g).
             let (r, g') = random g;
                 j = nat \<lfloor>r * of_nat (i + 1)\<rfloor>
             in (newDeck[i := newDeck ! j, j := newDeck ! i], g')) idxs (deck, g))) = mset deck"
  using assms
proof (induction idxs arbitrary: deck g)
  case Nil
  show ?case by simp
next
  case (Cons i idxs)
  obtain r g' where rg: "random g = (r, g')"
    by (cases "random g")
  then have r: "0 \<le> r" "r < 1" and g': "valid_rng g'"
    using valid_rng_random[OF Cons.prems(2)] by simp_all
  let ?j = "nat \<lfloor>r * of_nat (i + 1)\<rfloor>"
  let ?d = "deck[i := deck ! ?j, ?j := deck ! i]"
  have i: "i < length deck"
    using Cons.prems(1) by simp
  have "r * of_nat (i + 1) < of_nat (i + 1)"
    using r by simp
  then have "\<lfloor>r * of_nat (i + 1)\<rfloor> < int (i + 1)"
    by (simp add: floor_less_iff)
  then have j: "?j < length deck"
    using i by linarith
  have m: "mset ?d = mset deck"
    using i j by (simp add: mset_swap)
  have "\<forall>k \<in> set idxs. k < length ?d"
    using Cons.prems(1) by simp
  from Cons.IH[OF this g'] m show ?case
    by (simp add: rg Let_def)
qed

lemma shuffleDeck_mset: "valid_rng g \<Longrightarrow> mset (fst (shuffleDeck deck g)) = mset deck"
  unfolding shuffleDeck_def by (rule shuffle_fold) auto


subsection \<open>The fallback hand; a random source that never moves a card\<close>

lemma slice0_values:
  "map card_value (slice0 (fst (generateDeck difficulty g)) 4) = [Fin 1, Fin 1, Fin 1, Fin 1]"
proof -
  have "map (\<lambda>c. (card_value c, suit c, color c)) (slice0 (fst (generateDeck difficulty g)) 4)
      = take 4 (map (\<lambda>c. (card_value c, suit c, color c)) (fst (generateDeck difficulty g)))"
    by (simp add: slice0_def take_map)
  also have "\<dots> = take 4 (full_deck (if difficulty = Hard then 13 else 10))"
    by (simp only: generateDeck_cards)
  also have "\<dots> = [(Fin 1, Hearts, red), (Fin 1, Diamonds, red), (Fin 1, Clubs, black), (Fin 1, Spades, black)]"
    by (cases difficulty) (simp_all add: full_deck_def upt_rec)
  finally have "map fst (map (\<lambda>c. (card_value c, suit c, color c)) (slice0 (fst (generateDeck difficulty g)) 4))
      = [Fin 1, Fin 1, Fin 1, Fin 1]"
    by simp
  then show ?thesis
    by (simp add: comp_def)
qed

lemma ones_not_solvable: "\<not> solvable (solve24 [Fin 1, Fin 1, Fin 1, Fin 1])"
  by (simp add: solve24_def ones_unsolvable)

lemma drawCards_cases:
  "(\<exists>k < 100. fst (drawCards cnt difficulty g) = hand_at cnt difficulty g k \<and>
            hand_solvable (hand_at cnt difficulty g k) \<and>
            (\<forall>m < k. \<not> hand_solvable (hand_at cnt difficulty g m)))
       \<or> ((\<forall>m < 100. \<not> hand_solvable (hand_at cnt difficulty g m)) \<and>
           fst (drawCards cnt difficulty g) =
             slice0 (fst (generateDeck difficulty (rng_after cnt difficulty g 100))) cnt)"
  unfolding drawCards_def by (rule drawCards_loop_spec) simp

text \<open>
  A random source that always returns 0.99. For a deck of at most 99 cards the index
  \<open>j = \<lfloor>0.99 * (i + 1)\<rfloor>\<close> of every step of the shuffle is \<open>i\<close> itself, so the deck
  stays as generated, and all the hundred attempts draw its first cards.
\<close>

definition calm :: rng where
  "calm = (\<lambda>n. 99 / 100)"

lemma random_calm: "random calm = (99 / 100, calm)"
  by (simp add: random_def calm_def)

lemma generateDeck_calm: "snd (generateDeck difficulty calm) = calm"
  by (cases difficulty) (simp_all add: generateDeck_def random_calm upt_rec)

lemma length_generateDeck: "length (fst (generateDeck difficulty g)) \<le> 52"
proof -
  have "length (map (\<lambda>c. (card_value c, suit c, color c)) (fst (generateDeck difficulty g))) \<le> 52"
    unfolding generateDeck_cards by (cases difficulty) (simp_all add: full_deck_def upt_rec)
  then show ?thesis
    by simp
qed

lemma calm_index: "i < 99 \<Longrightarrow> nat \<lfloor>99 * rat_of_nat (Suc i) / 100\<rfloor> = i"
proof -
  assume "i < 99"
  then have "rat_of_nat i < 99"
    by simp
  then have "of_int (int i) \<le> 99 * (rat_of_nat i + 1) / 100"
    "99 * (rat_of_nat i + 1) / 100 < of_int (int i) + 1"
    by simp_all
  then have "\<lfloor>99 * (rat_of_nat i + 1) / 100\<rfloor> = int i"
    by (rule floor_unique)
  then show ?thesis
    by (simp add: add.commute)
qed

lemma shuffle_fold_calm:
  "\<forall>i \<in> set idxs. i < 99 \<Longrightarrow>
   fold (\<lambda>i (newDeck, g).
             let (r, g') = random g;
                 j = nat \<lfloor>r * of_nat (i + 1)\<rfloor>
             in (newDeck[i := newDeck ! j, j := newDeck ! i], g')) idxs (deck, calm) = (deck, calm)"
proof (induction idxs)
  case Nil
  then show ?case by simp
next
  case (Cons a idxs)
  then have "a < 99" by simp
  then have "nat \<lfloor>99 / 100 * rat_of_nat (a + 1)\<rfloor> = a"
    using calm_index[of a] by simp
  then have "(\<lambda>(newDeck, g).
             let (r, g') = random g;
                 j = nat \<lfloor>r * of_nat (a + 1)\<rfloor>
             in (newDeck[a := newDeck ! j, j := newDeck ! a], g')) (deck, calm) = (deck, calm)"
    by (simp only: prod.case random_calm Let_def list_update_id)
  then show ?case
    using Cons by (simp only: fold_simps list.set insert_iff ball_simps) simp
qed

lemma shuffleDeck_calm: "length deck \<le> 99 \<Longrightarrow> shuffleDeck deck calm = (deck, calm)"
  unfolding shuffleDeck_def by (rule shuffle_fold_calm) auto

lemma attempt_calm:
  "attempt cnt difficulty calm = (slice0 (fst (generateDeck difficulty calm)) cnt, calm)"
proof -
  have "length (fst (generateDeck difficulty calm)) \<le> 99"
    using length_generateDeck[of difficulty calm] by simp
  then show ?thesis
    by (simp add: attempt_def Let_def split_beta generateDeck_calm shuffleDeck_calm)
qed

lemma rng_after_calm: "rng_after cnt difficulty calm k = calm"
  by (induction k) (simp_all add: rng_after_def attempt_calm)

lemma hand_at_calm:
  "hand_at cnt difficulty calm k = slice0 (fst (generateDeck difficulty calm)) cnt"
  by (simp add: hand_at_def rng_after_calm attempt_calm)

lemma calm_unsolvable: "\<not> hand_solvable (hand_at 4 difficulty calm k)"
  by (simp add: hand_solvable_def hand_at_calm slice0_values ones_not_solvable)


lemma length_generateDeck_eq:
  "length (fst (generateDeck difficulty g)) = (if difficulty = Hard then 52 else 40)"
proof -
  have "length (map (\<lambda>c. (card_value c, suit c, color c)) (fst (generateDeck difficulty g))) =
      (if difficulty = Hard then 52 else 40)"
    unfolding generateDeck_cards by (cases difficulty) (simp_all add: full_deck_def upt_rec)
  then show ?thesis
    by simp
qed

lemma shuffle_fold_length:
  "length (fst (fold (\<lambda>i (newDeck, g).
             let (r, g') = random g;
                 j = nat \<lfloor>r * of_nat (i + 1)\<rfloor>
             in (newDeck[i := newDeck ! j, j := newDeck ! i], g')) idxs (deck, g))) = length deck"
  by (induction idxs arbitrary: deck g) (simp_all add: split_beta Let_def)

lemma length_shuffleDeck: "length (fst (shuffleDeck deck g)) = length deck"
  unfolding shuffleDeck_def by (rule shuffle_fold_length)

lemma length_attempt:
  "0 \<le> cnt \<Longrightarrow> cnt \<le> 40 \<Longrightarrow> length (fst (attempt cnt difficulty g)) = nat cnt"
  using length_generateDeck_eq[of difficulty g]
    length_shuffleDeck[of "fst (generateDeck difficulty g)" "snd (generateDeck difficulty g)"]
  by (simp add: attempt_def split_beta Let_def slice0_def split: if_splits)

lemma length_fallback:
  "0 \<le> cnt \<Longrightarrow> cnt \<le> 40 \<Longrightarrow> length (slice0 (fst (generateDeck difficulty g)) cnt) = nat cnt"
  using length_generateDeck_eq[of difficulty g]
  by (simp add: slice0_def split: if_splits)

lemma length_drawCards:
  assumes "0 \<le> cnt" "cnt \<le> 40"
  shows "length (fst (drawCards cnt difficulty g)) = nat cnt"
  using drawCards_cases[of cnt difficulty g] assms
  by (auto simp: hand_at_def length_attempt length_fallback)

lemma slice0_map: "map f (slice0 xs n) = slice0 (map f xs) n"
  by (simp add: slice0_def take_map)


subsection \<open>A random source that deals a solvable hand at once\<close>

text \<open>
  A random source that always returns \<open>q\<close>. For \<open>q = 0.5\<close> the index of step \<open>i\<close> of the
  shuffle is \<open>(i + 1) div 2\<close>; the shuffle of the Hard deck then brings the values
  \<open>[1, 9, 1, 13]\<close> to the front, and \<open>1 + 9 + 1 + 13 = 24\<close>.
\<close>

definition steady :: "rat \<Rightarrow> rng" where
  "steady q = (\<lambda>n. q)"

lemma random_steady: "random (steady q) = (q, steady q)"
  by (simp add: random_def steady_def)

lemma generateDeck_steady: "snd (generateDeck difficulty (steady q)) = steady q"
  by (cases difficulty) (simp_all add: generateDeck_def random_steady upt_rec)

lemma half_index: "nat \<lfloor>(1 / 2 :: rat) * of_nat (i + 1)\<rfloor> = (i + 1) div 2"
proof -
  have "\<lfloor>rat_of_int (int (i + 1)) / rat_of_int 2\<rfloor> = int (i + 1) div 2"
    by (rule floor_divide_of_int_eq)
  then have "\<lfloor>(1 / 2 :: rat) * of_nat (i + 1)\<rfloor> = int (i + 1) div 2"
    by simp
  then show ?thesis
    by (simp add: nat_div_distrib)
qed

lemma shuffle_fold_half:
  "fold (\<lambda>i (newDeck, g).
             let (r, g') = random g;
                 j = nat \<lfloor>r * of_nat (i + 1)\<rfloor>
             in (newDeck[i := newDeck ! j, j := newDeck ! i], g')) idxs (deck, steady (1 / 2)) =
   (fold (\<lambda>i newDeck. newDeck[i := newDeck ! ((i + 1) div 2), (i + 1) div 2 := newDeck ! i]) idxs deck,
    steady (1 / 2))"
proof (induction idxs arbitrary: deck)
  case Nil
  then show ?case by simp
next
  case (Cons a idxs)
  have "(\<lambda>(newDeck, g).
             let (r, g') = random g;
                 j = nat \<lfloor>r * of_nat (a + 1)\<rfloor>
             in (newDeck[a := newDeck ! j, j := newDeck ! a], g')) (deck, steady (1 / 2)) =
        (deck[a := deck ! ((a + 1) div 2), (a + 1) div 2 := deck ! a], steady (1 / 2))"
    by (simp only: prod.case random_steady Let_def half_index)
  then show ?case
    using Cons by (simp only: fold_simps comp_apply)
qed

lemma swaps_map:
  "\<forall>i \<in> set idxs. i < length deck \<Longrightarrow>
   map f (fold (\<lambda>i newDeck. newDeck[i := newDeck ! ((i + 1) div 2), (i + 1) div 2 := newDeck ! i]) idxs deck) =
   fold (\<lambda>i newDeck. newDeck[i := newDeck ! ((i + 1) div 2), (i + 1) div 2 := newDeck ! i]) idxs (map f deck)"
proof (induction idxs arbitrary: deck)
  case Nil
  then show ?case by simp
next
  case (Cons a idxs)
  then have a: "a < length deck" "(a + 1) div 2 < length deck"
    by auto
  have "map f (deck[a := deck ! ((a + 1) div 2), (a + 1) div 2 := deck ! a]) =
     (map f deck)[a := map f deck ! ((a + 1) div 2), (a + 1) div 2 := map f deck ! a]"
    using a by (simp add: map_update)
  with Cons.IH[of "deck[a := deck ! ((a + 1) div 2), (a + 1) div 2 := deck ! a]"] Cons.prems
  show ?case
    by simp
qed

lemma list_update_Cons_numeral:
  "(x # xs)[numeral k := y] = x # xs[pred_numeral k := y]"
  by (simp add: numeral_eq_Suc)

lemma half_values:
  "take 4 (fold (\<lambda>i newDeck. newDeck[i := newDeck ! ((i + 1) div 2), (i + 1) div 2 := newDeck ! i])
             (rev [1..<52]) (map fst (full_deck 13))) = [Fin 1, Fin 9, Fin 1, Fin 13]"
  by (simp add: full_deck_def upt_rec list_update_Cons_numeral)

lemma half_hand:
  "map card_value (hand_at 4 Hard (steady (1 / 2)) 0) = [Fin 1, Fin 9, Fin 1, Fin 13]"
proof -
  let ?D = "fst (generateDeck Hard (steady (1 / 2)))"
  let ?sw = "\<lambda>i newDeck. newDeck[i := newDeck ! ((i + 1) div 2), (i + 1) div 2 := newDeck ! i]"
  have l: "length ?D = 52"
    by (simp add: length_generateDeck_eq)
  have v: "map card_value ?D = map fst (full_deck 13)"
    using arg_cong[OF generateDeck_cards[of Hard "steady (1 / 2)"], of "map fst"]
    by (simp add: comp_def)
  have s: "shuffleDeck ?D (steady (1 / 2)) = (fold ?sw (rev [1..<52]) ?D, steady (1 / 2))"
    unfolding shuffleDeck_def l by (rule shuffle_fold_half)
  have "hand_at 4 Hard (steady (1 / 2)) 0 = take 4 (fold ?sw (rev [1..<52]) ?D)"
    by (simp add: hand_at_0 attempt_def split_beta Let_def generateDeck_steady s slice0_def)
  then have "map card_value (hand_at 4 Hard (steady (1 / 2)) 0) =
      take 4 (map card_value (fold ?sw (rev [1..<52]) ?D))"
    by (simp add: take_map)
  also have "map card_value (fold ?sw (rev [1..<52]) ?D) = fold ?sw (rev [1..<52]) (map card_value ?D)"
    by (rule swaps_map) (simp add: l)
  finally show ?thesis
    by (simp only: v half_values)
qed

lemma half_solvable: "solvable (solve24 [Fin 1, Fin 9, Fin 1, Fin 13])"
  by code_simp


section \<open>The claims\<close>

subsection \<open>C5: the parenthesization rule\<close>

text \<open>
  Claim C5. When the text of a composite is rendered from two well-formed children and
  an operation of the table, the left text is put in parentheses iff the left child is
  a composite of a level strictly below the operation's, the right text iff the right
  child is a composite and its level is strictly below the operation's, or equal to it
  while the operation is \<open>-\<close> or \<open>/\<close> (the division sign of the displayed solution);
  the text is the left text, a space, the operator symbol, a space, the right text.
\<close>

theorem paren_rule:
  assumes "wf_node a" "wf_node b" "operation \<in> set ops"
  shows "str (newNode a b operation) =
           (if is_composite a \<and> opLevel a < level operation then parens (str a) else str a)
           @ '' '' @ op operation @ '' '' @
           (if is_composite b \<and>
               (opLevel b < level operation \<or>
                (opLevel b = level operation \<and> (op operation = ''-'' \<or> op operation = ''/'')))
            then parens (str b) else str b)"
  using assms
  by (auto simp: newNode_def Let_def leftStr_def rightStr_def parens_def wf_composite_level)

theorem paren_rule_witness:
  "wf_node (newNode (leaf (Fin 5)) (leaf (Fin 3)) (ops ! 1)) \<and> wf_node (leaf (Fin 2)) \<and>
   ops ! 3 \<in> set ops \<and>
   str (newNode (newNode (leaf (Fin 5)) (leaf (Fin 3)) (ops ! 1)) (leaf (Fin 2)) (ops ! 3))
     = ''(5 - 3) / 2''"
proof -
  have a: "wf_node (newNode (leaf (Fin 5)) (leaf (Fin 3)) (ops ! 1))"
    by code_simp
  have b: "wf_node (leaf (Fin 2))"
    by code_simp
  have c: "ops ! 3 \<in> set ops"
    by (simp add: ops_def)
  have d: "str (newNode (newNode (leaf (Fin 5)) (leaf (Fin 3)) (ops ! 1)) (leaf (Fin 2)) (ops ! 3))
     = ''(5 - 3) / 2''"
    using paren_rule [OF a b c] by code_simp
  show ?thesis
    using a b c d by blast
qed

subsection \<open>C4: the search order\<close>

text \<open>
  Claim C4. The operations are tried in the order \<open>+\<close>, \<open>-\<close>, \<open>*\<close>, \<open>/\<close>, and
  \<open>findSolution\<close> returns the first frontier of size one, in the depth-first,
  left-to-right order of \<open>terminals\<close> (first index ascending, second index ascending and
  different from the first, operations in table order), whose value is within \<open>EPSILON\<close>
  of 24; it returns nothing iff there is none.
\<close>

theorem search_order:
  "map op ops = [''+'', ''-'', ''*'', ''/''] \<and>
   findSolution nodes = List.find within24 (terminals nodes)"
  by (simp add: findSolution_terminals ops_def)

theorem search_order_witness:
  "List.find within24 (terminals (initialNodes [Fin 6, Fin 6, Fin 6, Fin 6])) =
     Some (newNode (newNode (leaf (Fin 6)) (leaf (Fin 6)) (ops ! 0))
                   (newNode (leaf (Fin 6)) (leaf (Fin 6)) (ops ! 0)) (ops ! 0))"
proof -
  have "findSolution (initialNodes [Fin 6, Fin 6, Fin 6, Fin 6]) =
     Some (newNode (newNode (leaf (Fin 6)) (leaf (Fin 6)) (ops ! 0))
                   (newNode (leaf (Fin 6)) (leaf (Fin 6)) (ops ! 0)) (ops ! 0))"
    by code_simp
  then show ?thesis
    using search_order [of "initialNodes [Fin 6, Fin 6, Fin 6, Fin 6]"] by simp
qed

subsection \<open>C10: termination\<close>

text \<open>
  Claim C10. Every recursive call of \<open>findSolution\<close> is on a frontier exactly one
  element shorter; a frontier of \<open>n\<close> nodes has at most \<open>n * (n - 1) * 4\<close> branches and
  the recursion below it is at most \<open>n - 1\<close> deep, so from four numbers there are at
  most 48 branches at one level and the depth is at most 3. \<open>findSolution\<close> is defined
  by well-founded recursion on the length of the frontier, so it returns on every input.
\<close>

theorem search_terminates:
  "(length nodes \<noteq> 1 \<longrightarrow> findSolution nodes = first_some findSolution (branches nodes)) \<and>
   (\<forall>fr \<in> set (branches nodes). length fr + 1 = length nodes) \<and>
   length (branches nodes) \<le> length nodes * (length nodes - 1) * 4 \<and>
   depth nodes \<le> length nodes - 1 \<and>
   (length nodes = 4 \<longrightarrow> length (branches nodes) \<le> 48 \<and> depth nodes \<le> 3)"
proof -
  have "length nodes = 4 \<Longrightarrow> length (branches nodes) \<le> 48 \<and> depth nodes \<le> 3"
    using length_branches [of nodes] depth_le [of nodes] by simp
  then show ?thesis
    using findSolution_branches branches_length length_branches depth_le by blast
qed

theorem search_terminates_witness:
  "length (initialNodes [Fin 6, Fin 6, Fin 6, Fin 6]) = 4 \<and>
   hd (branches (initialNodes [Fin 6, Fin 6, Fin 6, Fin 6]))
     \<in> set (branches (initialNodes [Fin 6, Fin 6, Fin 6, Fin 6])) \<and>
   length (hd (branches (initialNodes [Fin 6, Fin 6, Fin 6, Fin 6]))) + 1 = 4 \<and>
   length (branches (initialNodes [Fin 6, Fin 6, Fin 6, Fin 6])) \<le> 48 \<and>
   depth (initialNodes [Fin 6, Fin 6, Fin 6, Fin 6]) \<le> 3"
proof -
  have l: "length (initialNodes [Fin 6, Fin 6, Fin 6, Fin 6]) = 4"
    by (simp add: initialNodes_def)
  have "branches (initialNodes [Fin 6, Fin 6, Fin 6, Fin 6]) \<noteq> []"
    by code_simp
  then have m: "hd (branches (initialNodes [Fin 6, Fin 6, Fin 6, Fin 6]))
     \<in> set (branches (initialNodes [Fin 6, Fin 6, Fin 6, Fin 6]))"
    by simp
  show ?thesis
    using l m search_terminates [of "initialNodes [Fin 6, Fin 6, Fin 6, Fin 6]"] by auto
qed


subsection \<open>C2: the operands of the solution\<close>

text \<open>
  Claim C2. When \<open>solve24\<close> reports a solution, the solution string is the displayed
  text of a well-formed expression tree over the four operations whose leaves are the
  input numbers, each exactly once counting multiplicity: the operands of the string,
  as a multiset, are the renderings of the inputs, and every other word is an operator.
\<close>

theorem solution_operands:
  assumes "solvable (solve24 numbers)"
  shows "\<exists>rootNode s. findSolution (initialNodes numbers) = Some rootNode \<and>
           wf_node rootNode \<and> mset (leaves rootNode) = mset numbers \<and>
           solution (solve24 numbers) = Some s \<and> s = prettySolution rootNode \<and>
           mset (operands s) = image_mset toString (mset numbers)"
proof -
  from assms obtain rootNode where r: "findSolution (initialNodes numbers) = Some rootNode"
    "solution (solve24 numbers) = Some (prettySolution rootNode)"
    by (rule solve24_solvableD)
  from findSolution_wf[OF wf_initial r(1)]
  have wf: "wf_node rootNode" and l: "mset (leaves rootNode) = mset numbers"
    by (simp_all add: frontier_leaves_initial)
  have "mset (operands (prettySolution rootNode)) = image_mset toString (mset (leaves rootNode))"
    by (simp add: operands_solution[OF wf])
  then show ?thesis
    using r wf l by simp
qed

theorem solution_operands_witness:
  "solvable (solve24 [Fin 4, Fin 1, Fin 8, Fin 7]) \<and>
   solution (solve24 [Fin 4, Fin 1, Fin 8, Fin 7]) = Some (''8 '' @ [times_sign] @ '' (7 - 4 '' @ [times_sign] @ '' 1)'') \<and>
   operands (''8 '' @ [times_sign] @ '' (7 - 4 '' @ [times_sign] @ '' 1)'') = [''8'', ''7'', ''4'', ''1''] \<and>
   mset [''8'', ''7'', ''4'', ''1''] = image_mset toString (mset [Fin 4, Fin 1, Fin 8, Fin 7])"
proof -
  have s: "solvable (solve24 [Fin 4, Fin 1, Fin 8, Fin 7])"
    by code_simp
  have t: "solution (solve24 [Fin 4, Fin 1, Fin 8, Fin 7])
      = Some (''8 '' @ [times_sign] @ '' (7 - 4 '' @ [times_sign] @ '' 1)'')"
    by code_simp
  have o: "operands (''8 '' @ [times_sign] @ '' (7 - 4 '' @ [times_sign] @ '' 1)'') = [''8'', ''7'', ''4'', ''1'']"
    by code_simp
  from solution_operands[OF s] t o
  have "mset [''8'', ''7'', ''4'', ''1''] = image_mset toString (mset [Fin 4, Fin 1, Fin 8, Fin 7])"
    by auto
  with s t o show ?thesis by blast
qed

subsection \<open>C6: the first-step hint\<close>

text \<open>
  Claim C6. For a solvable input the hint is the text of the first composite of two
  leaves in the left-then-right depth-first traversal of the solution tree: the left
  leaf's value, the operator symbol as displayed, the right leaf's value, with single
  spaces between. That composite is a subtree of the solution tree and the hint is a
  contiguous part of the solution string. When the tree is a single leaf the hint is
  the empty string.
\<close>

theorem first_step_hint:
  assumes "solvable (solve24 numbers)"
  shows "\<exists>rootNode. findSolution (initialNodes numbers) = Some rootNode \<and>
           solution (solve24 numbers) = Some (prettySolution rootNode) \<and>
           firstStepHint (solve24 numbers) = Some (spec_hint rootNode) \<and>
           (\<not> is_composite rootNode \<longrightarrow> spec_hint rootNode = []) \<and>
           (is_composite rootNode \<longrightarrow>
              (\<exists>m l r s. List.find leaf_pair (subnodes rootNode) = Some m \<and>
                 m \<in> set (subnodes rootNode) \<and>
                 left m = Some l \<and> right m = Some r \<and> opStr m = Some s \<and>
                 \<not> is_composite l \<and> \<not> is_composite r \<and>
                 spec_hint rootNode =
                   toString (val l) @ '' '' @ display_symbol s @ '' '' @ toString (val r) \<and>
                 sublist (spec_hint rootNode) (prettySolution rootNode)))"
proof -
  from assms obtain rootNode where r: "findSolution (initialNodes numbers) = Some rootNode"
    "solution (solve24 numbers) = Some (prettySolution rootNode)"
    "firstStepHint (solve24 numbers) = Some (findFirstOperation rootNode)"
    by (rule solve24_solvableD)
  from findSolution_wf[OF wf_initial r(1)] have wf: "wf_node rootNode"
    by simp
  have h: "findFirstOperation rootNode = spec_hint rootNode"
    using findFirstOperation_spec[OF wf] by simp
  have leafcase: "spec_hint rootNode = []" if "\<not> is_composite rootNode"
    using that findFirstOperation_spec[OF wf] wf_not_composite[OF wf] by auto
  have compcase: "\<exists>m l r s. List.find leaf_pair (subnodes rootNode) = Some m \<and>
                 m \<in> set (subnodes rootNode) \<and>
                 left m = Some l \<and> right m = Some r \<and> opStr m = Some s \<and>
                 \<not> is_composite l \<and> \<not> is_composite r \<and>
                 spec_hint rootNode =
                   toString (val l) @ '' '' @ display_symbol s @ '' '' @ toString (val r) \<and>
                 sublist (spec_hint rootNode) (prettySolution rootNode)"
    if "is_composite rootNode"
  proof -
    from that have "left rootNode \<noteq> None"
      by (simp add: is_composite_def)
    then obtain m where m: "List.find leaf_pair (subnodes rootNode) = Some m"
      using wf_leaf_or_composite[OF wf] by auto
    then have ms: "m \<in> set (subnodes rootNode)" "leaf_pair m"
      by (auto simp: find_Some_iff)
    then have wfm: "wf_node m"
      using wf subnodes_wf by blast
    from ms(2) obtain l r where lr: "left m = Some l" "right m = Some r"
      "\<not> is_composite l" "\<not> is_composite r"
      by (auto simp: leaf_pair_def split: option.splits)
    from wfm lr(1) obtain s where s: "opStr m = Some s"
      by (induction rule: wf_node_induct) (auto simp: leaf_def newNode_def Let_def)
    have "spec_hint rootNode = toString (val l) @ '' '' @ display_symbol s @ '' '' @ toString (val r)"
      using m lr s by (simp add: spec_hint_def hint_text_def)
    moreover have "sublist (spec_hint rootNode) (prettySolution rootNode)"
      using wf m by (rule hint_sublist)
    ultimately show ?thesis
      using m ms(1) lr s by blast
  qed
  show ?thesis
    using r h leafcase compcase by auto
qed

theorem first_step_hint_witness:
  "solvable (solve24 [Fin 1, Fin 2, Fin 3, Fin 4]) \<and>
   firstStepHint (solve24 [Fin 1, Fin 2, Fin 3, Fin 4]) = Some ''1 + 2'' \<and>
   (\<exists>rootNode. findSolution (initialNodes [Fin 1, Fin 2, Fin 3, Fin 4]) = Some rootNode \<and>
      spec_hint rootNode = ''1 + 2'' \<and> is_composite rootNode \<and>
      sublist ''1 + 2'' (prettySolution rootNode))"
proof -
  have e: "solve24 [Fin 1, Fin 2, Fin 3, Fin 4] =
      \<lparr>solvable = True, solution = Some (''4 '' @ [times_sign] @ '' (3 + 1 + 2)''),
       firstStepHint = Some ''1 + 2''\<rparr>"
    by code_simp
  then have s: "solvable (solve24 [Fin 1, Fin 2, Fin 3, Fin 4])"
    by simp
  from first_step_hint[OF s] obtain rootNode where
    r: "findSolution (initialNodes [Fin 1, Fin 2, Fin 3, Fin 4]) = Some rootNode"
    "firstStepHint (solve24 [Fin 1, Fin 2, Fin 3,Fin 4]) = Some (spec_hint rootNode)"
    "\<not> is_composite rootNode \<longrightarrow> spec_hint rootNode = []"
    "is_composite rootNode \<longrightarrow> sublist (spec_hint rootNode) (prettySolution rootNode)"
    by blast
  from r(2) e have h: "spec_hint rootNode = ''1 + 2''"
    by simp
  with r(3) have "is_composite rootNode"
    by auto
  with r h s e show ?thesis
    by auto
qed

subsection \<open>C7: no NaN, no Infinity; the division guard\<close>

text \<open>
  Claim C7. For finite input numbers \<open>solve24\<close> returns a result (it is a total
  function, there is no error value): either \<open>solvable = false\<close> without strings, or
  \<open>solvable = true\<close> with a solution string and a hint string. Neither string contains
  the text \<open>NaN\<close> or \<open>Infinity\<close> (they hold no letter \<open>N\<close> and no letter \<open>I\<close>): they are
  made of the renderings of the input numbers and of operator symbols, spaces and
  parentheses. A division \<open>a / b\<close> with \<open>|b.val| < EPSILON\<close> is skipped and not performed:
  every node the search builds, in the order of \<open>findSolution_trace\<close> whose result is that
  of \<open>findSolution\<close>, is built from an operation of the table that is not such a division,
  and in the returned tree the right operand of every division is at least \<open>EPSILON\<close> in
  absolute value. The values of the nodes inside the search are not spoken of.
\<close>

theorem no_nan_no_infinity:
  assumes "\<forall>x \<in> set numbers. is_finite x"
  shows "(solve24 numbers = \<lparr>solvable = False, solution = None, firstStepHint = None\<rparr> \<or>
          (\<exists>s h. solve24 numbers =
             \<lparr>solvable = True, solution = Some s, firstStepHint = Some h\<rparr>)) \<and>
         (\<forall>s. solution (solve24 numbers) = Some s \<or> firstStepHint (solve24 numbers) = Some s
            \<longrightarrow> \<not> sublist ''NaN'' s \<and> \<not> sublist ''Infinity'' s \<and>
                CHR ''N'' \<notin> set s \<and> CHR ''I'' \<notin> set s) \<and>
         snd (findSolution_trace (initialNodes numbers)) = findSolution (initialNodes numbers) \<and>
         (\<forall>n \<in> set (fst (findSolution_trace (initialNodes numbers))).
            \<exists>a b operation. operation \<in> set ops \<and> n = newNode a b operation \<and>
              \<not> (op operation = ''/'' \<and> js_lt (js_abs (val b)) EPSILON)) \<and>
         (\<forall>rootNode. findSolution (initialNodes numbers) = Some rootNode \<longrightarrow>
            (\<forall>m \<in> set (subnodes rootNode). opStr m = Some ''/'' \<longrightarrow>
               (\<exists>b. right m = Some b \<and> \<not> js_lt (js_abs (val b)) EPSILON)))"
proof -
  have 1: "solve24 numbers = \<lparr>solvable = False, solution = None, firstStepHint = None\<rparr> \<or>
          (\<exists>s h. solve24 numbers =
             \<lparr>solvable = True, solution = Some s, firstStepHint = Some h\<rparr>)"
    by (simp add: solve24_def split: option.splits)
  have 2: "\<not> sublist ''NaN'' s \<and> \<not> sublist ''Infinity'' s \<and>
      CHR ''N'' \<notin> set s \<and> CHR ''I'' \<notin> set s"
    if s: "solution (solve24 numbers) = Some s \<or> firstStepHint (solve24 numbers) = Some s" for s
  proof -
    from s have "solvable (solve24 numbers)"
      using solve24_unsolvable[of numbers] by (cases "solvable (solve24 numbers)") auto
    then obtain rootNode where r: "findSolution (initialNodes numbers) = Some rootNode"
      "solution (solve24 numbers) = Some (prettySolution rootNode)"
      "firstStepHint (solve24 numbers) = Some (findFirstOperation rootNode)"
      by (rule solve24_solvableD)
    from findSolution_wf[OF wf_initial r(1)]
    have wf: "wf_node rootNode" and "frontier_leaves [rootNode] = frontier_leaves (initialNodes numbers)"
      by simp_all
    then have "mset (leaves rootNode) = mset numbers"
      by (simp add: frontier_leaves_single frontier_leaves_initial)
    then have "set (leaves rootNode) = set numbers"
      by (rule mset_eq_setD)
    then have "\<forall>v \<in> set (leaves rootNode). is_finite v"
      using assms by simp
    with wf have "set (str rootNode) \<subseteq> plain_chars"
      by (rule leaves_chars)
    then have p: "set (prettySolution rootNode) \<subseteq> plain_chars"
      by (rule prettySolution_chars)
    have h: "set (findFirstOperation rootNode) \<subseteq> plain_chars"
    proof (cases "find leaf_pair (subnodes rootNode)")
      case None
      then show ?thesis
        using findFirstOperation_spec[OF wf] by (simp add: spec_hint_def)
    next
      case (Some m)
      from hint_sublist[OF wf Some]
      have "set (spec_hint rootNode) \<subseteq> set (prettySolution rootNode)"
        by (rule set_mono_sublist)
      then show ?thesis
        using p findFirstOperation_spec[OF wf] by auto
    qed
    from s r p h have "set s \<subseteq> plain_chars"
      by auto
    then have c: "CHR ''N'' \<notin> set s" "CHR ''I'' \<notin> set s"
      using plain_letters by auto
    have "\<not> sublist ''NaN'' s"
    proof
      assume "sublist ''NaN'' s"
      then have "set ''NaN'' \<subseteq> set s"
        by (rule set_mono_sublist)
      with c(1) show False
        by simp
    qed
    moreover have "\<not> sublist ''Infinity'' s"
    proof
      assume "sublist ''Infinity'' s"
      then have "set ''Infinity'' \<subseteq> set s"
        by (rule set_mono_sublist)
      with c(2) show False
        by simp
    qed
    ultimately show ?thesis
      using c by simp
  qed
  have 3: "snd (findSolution_trace (initialNodes numbers)) = findSolution (initialNodes numbers)"
    by (rule findSolution_trace_result)
  have 4: "\<forall>n \<in> set (fst (findSolution_trace (initialNodes numbers))).
            \<exists>a b operation. operation \<in> set ops \<and> n = newNode a b operation \<and>
              \<not> (op operation = ''/'' \<and> js_lt (js_abs (val b)) EPSILON)"
    using findSolution_trace_guarded[of _ "initialNodes numbers"] unfolding guarded_def by blast
  have 5: "\<forall>m \<in> set (subnodes rootNode). opStr m = Some ''/'' \<longrightarrow>
               (\<exists>b. right m = Some b \<and> \<not> js_lt (js_abs (val b)) EPSILON)"
    if "findSolution (initialNodes numbers) = Some rootNode" for rootNode
  proof -
    have "\<forall>n \<in> set (initialNodes numbers). guarded_tree n"
      by (simp add: initialNodes_leaf guarded_tree_leaf)
    from findSolution_guarded[OF this that] show ?thesis
      unfolding guarded_tree_def .
  qed
  from 1 2 3 4 5 show ?thesis
    by blast
qed

theorem no_nan_no_infinity_witness:
  "list_all is_finite [Fin 0, Fin 0, Fin 24] \<and>
   solve24 [Fin 0, Fin 0, Fin 24] =
     \<lparr>solvable = True, solution = Some ''24 + 0 + 0'', firstStepHint = Some ''0 + 0''\<rparr> \<and>
   \<not> sublist ''NaN'' ''24 + 0 + 0'' \<and> \<not> sublist ''Infinity'' ''24 + 0 + 0'' \<and>
   map str (fst (findSolution_trace (initialNodes [Fin 0, Fin 0, Fin 24]))) =
     [''0 + 0'', ''24 + 0 + 0''] \<and>
   list_all is_finite [Fin 0, Fin 0] \<and>
   solve24 [Fin 0, Fin 0] = \<lparr>solvable = False, solution = None, firstStepHint = None\<rparr> \<and>
   map str (fst (findSolution_trace (initialNodes [Fin 0, Fin 0]))) =
     [''0 + 0'', ''0 - 0'', ''0 * 0'', ''0 + 0'', ''0 - 0'', ''0 * 0''] \<and>
   list_all guarded (fst (findSolution_trace (initialNodes [Fin 0, Fin 0]))) \<and>
   list_all is_finite [Fin (3 / 12500), Fin (1 / 100000)] \<and>
   js_div (Fin (3 / 12500)) (Fin (1 / 100000)) = Fin 24 \<and>
   solve24 [Fin (3 / 12500), Fin (1 / 100000)] =
     \<lparr>solvable = False, solution = None, firstStepHint = None\<rparr> \<and>
   map str (fst (findSolution_trace (initialNodes [Fin (3 / 12500), Fin (1 / 100000)]))) =
     [''0.00024 + 0.00001'', ''0.00024 - 0.00001'', ''0.00024 * 0.00001'',
      ''0.00001 + 0.00024'', ''0.00001 - 0.00024'', ''0.00001 * 0.00024'',
      ''0.00001 / 0.00024''] \<and>
   list_all guarded (fst (findSolution_trace (initialNodes [Fin (3 / 12500), Fin (1 / 100000)]))) \<and>
   list_all is_finite [Fin 0, Fin 0, Fin 0, Fin 0] \<and>
   snd (findSolution_trace (initialNodes [Fin 0, Fin 0, Fin 0, Fin 0])) = None"
proof -
  have f: "\<forall>x \<in> set [Fin 0, Fin 0, Fin 24]. is_finite x" "\<forall>x \<in> set [Fin 0, Fin 0]. is_finite x"
    "\<forall>x \<in> set [Fin (3 / 12500), Fin (1 / 100000)]. is_finite x"
    "\<forall>x \<in> set [Fin 0, Fin 0, Fin 0, Fin 0]. is_finite x"
    by simp_all
  have a: "solve24 [Fin 0, Fin 0, Fin 24] =
     \<lparr>solvable = True, solution = Some ''24 + 0 + 0'', firstStepHint = Some ''0 + 0''\<rparr>"
    by code_simp
  have b: "map str (fst (findSolution_trace (initialNodes [Fin 0, Fin 0, Fin 24]))) =
     [''0 + 0'', ''24 + 0 + 0'']"
    by code_simp
  have c: "solve24 [Fin 0, Fin 0] = \<lparr>solvable = False, solution = None, firstStepHint = None\<rparr>"
    by code_simp
  have d: "map str (fst (findSolution_trace (initialNodes [Fin 0, Fin 0]))) =
     [''0 + 0'', ''0 - 0'', ''0 * 0'', ''0 + 0'', ''0 - 0'', ''0 * 0'']"
    by code_simp
  from no_nan_no_infinity[OF f(1)] a
  have e: "\<not> sublist ''NaN'' ''24 + 0 + 0''" "\<not> sublist ''Infinity'' ''24 + 0 + 0''"
    by simp_all
  from no_nan_no_infinity[OF f(2)]
  have "\<forall>n \<in> set (fst (findSolution_trace (initialNodes [Fin 0, Fin 0]))). guarded n"
    unfolding guarded_def by blast
  then have g: "list_all guarded (fst (findSolution_trace (initialNodes [Fin 0, Fin 0])))"
    by (simp add: list_all_iff)
  have h: "js_div (Fin (3 / 12500)) (Fin (1 / 100000)) = Fin 24"
    by simp
  have i: "solve24 [Fin (3 / 12500), Fin (1 / 100000)] =
     \<lparr>solvable = False, solution = None, firstStepHint = None\<rparr>"
    by code_simp
  have j: "map str (fst (findSolution_trace (initialNodes [Fin (3 / 12500), Fin (1 / 100000)]))) =
     [''0.00024 + 0.00001'', ''0.00024 - 0.00001'', ''0.00024 * 0.00001'',
      ''0.00001 + 0.00024'', ''0.00001 - 0.00024'', ''0.00001 * 0.00024'',
      ''0.00001 / 0.00024'']"
    by code_simp
  from no_nan_no_infinity[OF f(3)]
  have "\<forall>n \<in> set (fst (findSolution_trace (initialNodes [Fin (3 / 12500), Fin (1 / 100000)]))).
      guarded n"
    unfolding guarded_def by blast
  then have k: "list_all guarded
      (fst (findSolution_trace (initialNodes [Fin (3 / 12500), Fin (1 / 100000)])))"
    by (simp add: list_all_iff)
  from no_nan_no_infinity[OF f(4)] zeros_unsolvable
  have l: "snd (findSolution_trace (initialNodes [Fin 0, Fin 0, Fin 0, Fin 0])) = None"
    by simp
  from a b c d e g h i j k l show ?thesis
    by simp
qed


subsection \<open>C8: the dealer\<close>

text \<open>
  Claim C8. \<^verbatim>\<open>drawCards(count, difficulty)\<close> repeats: generate a fresh full deck (the values
  1 to 10 for Easy, 1 to 13 for Hard, one card per value and suit), shuffle it, take the
  first \<open>count\<close> cards, and accept the hand if and only if \<^verbatim>\<open>solve24\<close> on its values reports
  \<open>solvable\<close>. It makes at most 100 attempts; when all of them fail it returns the first
  \<open>count\<close> cards of a freshly generated, unshuffled deck.

  With \<open>hand_at k\<close> the hand of attempt \<open>k\<close> (the random source having gone through the
  \<open>k\<close> attempts before it), the returned hand is either \<open>hand_at k\<close> for the first
  \<open>k < 100\<close> whose hand is solvable, or, all of the hundred hands being unsolvable, the
  slice of a fresh deck, whose values, suits and colors do not depend on the random
  source. Each attempt is generate, shuffle, slice; the generated deck is the full deck
  in the order of the values and suits; the shuffle of a valid random source permutes
  the deck; for a \<open>count\<close> from 0 to 40 the hand has \<open>count\<close> cards.
\<close>

theorem drawCards_spec:
  "((\<exists>k < 100. fst (drawCards cnt difficulty g) = hand_at cnt difficulty g k \<and>
            hand_solvable (hand_at cnt difficulty g k) \<and>
            (\<forall>m < k. \<not> hand_solvable (hand_at cnt difficulty g m)))
       \<or> ((\<forall>m < 100. \<not> hand_solvable (hand_at cnt difficulty g m)) \<and>
           fst (drawCards cnt difficulty g) =
             slice0 (fst (generateDeck difficulty (rng_after cnt difficulty g 100))) cnt \<and>
           map (\<lambda>c. (card_value c, suit c, color c)) (fst (drawCards cnt difficulty g)) =
             slice0 (full_deck (if difficulty = Hard then 13 else 10)) cnt)) \<and>
   (\<forall>k. hand_at cnt difficulty g k =
      (let g0 = rng_after cnt difficulty g k;
           (deck, g1) = generateDeck difficulty g0;
           (shuffled, g2) = shuffleDeck deck g1
       in slice0 shuffled cnt)) \<and>
   (\<forall>g'. map (\<lambda>c. (card_value c, suit c, color c)) (fst (generateDeck difficulty g')) =
      full_deck (if difficulty = Hard then 13 else 10)) \<and>
   (\<forall>deck g'. valid_rng g' \<longrightarrow> mset (fst (shuffleDeck deck g')) = mset deck) \<and>
   (0 \<le> cnt \<and> cnt \<le> 40 \<longrightarrow> length (fst (drawCards cnt difficulty g)) = nat cnt)"
proof -
  have 1: "hand_at cnt difficulty g k =
      (let g0 = rng_after cnt difficulty g k;
           (deck, g1) = generateDeck difficulty g0;
           (shuffled, g2) = shuffleDeck deck g1
       in slice0 shuffled cnt)" for k
    by (simp add: hand_at_def attempt_def Let_def split: prod.splits)
  have 2: "map (\<lambda>c. (card_value c, suit c, color c)) h =
             slice0 (full_deck (if difficulty = Hard then 13 else 10)) cnt"
    if "h = slice0 (fst (generateDeck difficulty g')) cnt" for h g'
    unfolding that slice0_map generateDeck_cards ..
  have 3: "0 \<le> cnt \<and> cnt \<le> 40 \<longrightarrow> length (fst (drawCards cnt difficulty g)) = nat cnt"
    by (simp add: length_drawCards)
  from drawCards_cases[of cnt difficulty g] 2
  have 4: "(\<exists>k < 100. fst (drawCards cnt difficulty g) = hand_at cnt difficulty g k \<and>
            hand_solvable (hand_at cnt difficulty g k) \<and>
            (\<forall>m < k. \<not> hand_solvable (hand_at cnt difficulty g m)))
       \<or> ((\<forall>m < 100. \<not> hand_solvable (hand_at cnt difficulty g m)) \<and>
           fst (drawCards cnt difficulty g) =
             slice0 (fst (generateDeck difficulty (rng_after cnt difficulty g 100))) cnt \<and>
           map (\<lambda>c. (card_value c, suit c, color c)) (fst (drawCards cnt difficulty g)) =
             slice0 (full_deck (if difficulty = Hard then 13 else 10)) cnt)"
    by blast
  show ?thesis
    using 1 3 4 generateDeck_cards shuffleDeck_mset by blast
qed

theorem drawCards_spec_witness:
  "valid_rng (steady (1 / 2)) \<and>
   hand_solvable (hand_at 4 Hard (steady (1 / 2)) 0) \<and>
   fst (drawCards 4 Hard (steady (1 / 2))) = hand_at 4 Hard (steady (1 / 2)) 0 \<and>
   map card_value (fst (drawCards 4 Hard (steady (1 / 2)))) = [Fin 1, Fin 9, Fin 1, Fin 13] \<and>
   length (fst (drawCards 4 Hard (steady (1 / 2)))) = 4"
proof -
  let ?g = "steady (1 / 2)"
  have v: "valid_rng ?g"
    by (simp add: valid_rng_def steady_def)
  have s: "hand_solvable (hand_at 4 Hard ?g 0)"
    unfolding hand_solvable_def half_hand by (rule half_solvable)
  have z: "(0 :: nat) < 100"
    by simp
  note t = drawCards_spec[of 4 Hard ?g]
  from t s z obtain k where k: "fst (drawCards 4 Hard ?g) = hand_at 4 Hard ?g k"
    "\<forall>m < k. \<not> hand_solvable (hand_at 4 Hard ?g m)"
    by blast
  from k(2) s have "k = 0"
    by (cases k) auto
  with k have f: "fst (drawCards 4 Hard ?g) = hand_at 4 Hard ?g 0"
    by simp
  from t have "0 \<le> (4 :: int) \<and> (4 :: int) \<le> 40 \<longrightarrow> length (fst (drawCards 4 Hard ?g)) = nat 4"
    by blast
  then have e: "length (fst (drawCards 4 Hard ?g)) = 4"
    by simp
  have h: "map card_value (fst (drawCards 4 Hard ?g)) = [Fin 1, Fin 9, Fin 1, Fin 13]"
    unfolding f by (rule half_hand)
  from v s f h e show ?thesis
    by blast
qed


subsection \<open>C9: the fallback hand of four cards\<close>

text \<open>
  Claim C9. \<^verbatim>\<open>solve24([1, 1, 1, 1])\<close> returns \<open>solvable = false\<close>. For \<open>count = 4\<close>, at either
  difficulty, the first four cards of a fresh unshuffled deck have the values
  \<open>[1, 1, 1, 1]\<close>; so the hand \<^verbatim>\<open>drawCards\<close> returns after its hundred attempts have
  failed is those four cards, and it is never solvable.
\<close>

theorem fallback_never_solvable:
  "solve24 [Fin 1, Fin 1, Fin 1, Fin 1] = \<lparr>solvable = False, solution = None, firstStepHint = None\<rparr> \<and>
   map card_value (slice0 (fst (generateDeck difficulty g')) 4) = [Fin 1, Fin 1, Fin 1, Fin 1] \<and>
   ((\<forall>m < 100. \<not> hand_solvable (hand_at 4 difficulty g m)) \<longrightarrow>
      fst (drawCards 4 difficulty g) =
        take 4 (fst (generateDeck difficulty (rng_after 4 difficulty g 100))) \<and>
      map card_value (fst (drawCards 4 difficulty g)) = [Fin 1, Fin 1, Fin 1, Fin 1] \<and>
      \<not> hand_solvable (fst (drawCards 4 difficulty g)))"
proof (intro conjI impI)
  show "solve24 [Fin 1, Fin 1, Fin 1, Fin 1] = \<lparr>solvable = False, solution = None, firstStepHint = None\<rparr>"
    by (simp add: solve24_def ones_unsolvable)
next
  show "map card_value (slice0 (fst (generateDeck difficulty g')) 4) = [Fin 1, Fin 1, Fin 1, Fin 1]"
    by (rule slice0_values)
next
  assume a: "\<forall>m < 100. \<not> hand_solvable (hand_at 4 difficulty g m)"
  with drawCards_cases[of 4 difficulty g]
  have f: "fst (drawCards 4 difficulty g) =
        slice0 (fst (generateDeck difficulty (rng_after 4 difficulty g 100))) 4"
    by blast
  then show "fst (drawCards 4 difficulty g) =
        take 4 (fst (generateDeck difficulty (rng_after 4 difficulty g 100)))"
    by (simp add: slice0_def)
  from f show v: "map card_value (fst (drawCards 4 difficulty g)) = [Fin 1, Fin 1, Fin 1, Fin 1]"
    by (simp add: slice0_values)
  show "\<not> hand_solvable (fst (drawCards 4 difficulty g))"
    unfolding hand_solvable_def v by (rule ones_not_solvable)
qed

theorem fallback_never_solvable_witness:
  "list_all (\<lambda>m. \<not> hand_solvable (hand_at 4 Hard calm m)) [0..<100] \<and>
   fst (drawCards 4 Hard calm) = take 4 (fst (generateDeck Hard calm)) \<and>
   map card_value (fst (drawCards 4 Hard calm)) = [Fin 1, Fin 1, Fin 1, Fin 1] \<and>
   \<not> hand_solvable (fst (drawCards 4 Hard calm))"
proof -
  have a: "\<not> hand_solvable (hand_at 4 Hard calm m)" for m
    by (rule calm_unsolvable)
  with fallback_never_solvable[of Hard calm calm]
  have "fst (drawCards 4 Hard calm) = take 4 (fst (generateDeck Hard (rng_after 4 Hard calm 100)))"
    "map card_value (fst (drawCards 4 Hard calm)) = [Fin 1, Fin 1, Fin 1, Fin 1]"
    "\<not> hand_solvable (fst (drawCards 4 Hard calm))"
    by blast+
  then show ?thesis
    unfolding list_all_iff rng_after_calm using a by blast
qed

end
